theory Spec2Isabelle
  imports Main "HOL-Library.Finite_Map"
begin

section \<open>ttyd: the per-process history lists of the terminal helper daemon\<close>

text \<open>
  The development follows \<^verbatim>\<open>ttyd.c\<close>. The daemon keeps, for every pair of a
  process and a terminal device, a doubly linked list of history lines and a pointer
  \<^verbatim>\<open>current\<close> into that list. \<^verbatim>\<open>findhist\<close> looks a list up or creates it,
  \<^verbatim>\<open>handlehist\<close> stores a line or moves \<^verbatim>\<open>current\<close> up or down, and
  \<^verbatim>\<open>cleanup\<close> frees the lists of processes that no longer exist.
\<close>

subsection \<open>Data\<close>

type_synonym addr = nat
type_synonym pid_t = int
type_synonym dev_t = int
type_synonym time_t = int

text \<open>
  \<^verbatim>\<open>struct ttylist\<close>: one mapping between a terminal device number and its name.
  The list of all of them (the \<^verbatim>\<open>next\<close> field) is a HOL list.
\<close>

record ttylist =
  name :: string
  dev :: dev_t

text \<open>
  \<^verbatim>\<open>struct line\<close>: a node of the doubly linked list of history lines. The nodes are
  shared between their neighbours, the list head \<^verbatim>\<open>lines\<close> and \<^verbatim>\<open>current\<close>, so
  they live in an explicit store and point to each other by address; \<open>None\<close> is the
  null pointer. The text buffer belongs to its node alone (it is allocated with the
  node and freed with it), so its contents are the field \<open>text'\<close> of the node.
\<close>

record line =
  prev :: "addr option"
  text' :: string
  next' :: "addr option"

text \<open>
  \<^verbatim>\<open>struct hist\<close>: the history of one process on one device. \<open>lines\<close> points to the
  last (newest) line, \<open>current\<close> to the current line, if any. Every \<^verbatim>\<open>struct hist\<close>
  is reached through one pointer only, so the list of all of them (the \<^verbatim>\<open>next\<close>
  field) is a HOL list, newest session first.
\<close>

record hist =
  pid :: pid_t
  dev :: dev_t
  lines :: "addr option"
  current :: "addr option"

text \<open>
  Modelled from the spec: \<^verbatim>\<open>struct ttyhelper\<close> and the request codes
  \<^verbatim>\<open>TH_HIST_KEEP\<close>, \<^verbatim>\<open>TH_HIST_PREV\<close> and \<^verbatim>\<open>TH_HIST_NEXT\<close> come from a kernel header that
  is not part of the repository. The spec gives a request a kind that is Record,
  StepOlder, StepNewer or Unknown(code), a process id, a device id and a payload text.
  The three codes are the case labels of the \<^verbatim>\<open>switch\<close> in \<^verbatim>\<open>handlehist\<close>;
  \<open>TH_OTHER c\<close> is every other value of \<^verbatim>\<open>th_request\<close>. The pair of the buffer
  \<^verbatim>\<open>th_info\<close> and the number \<^verbatim>\<open>th_len\<close> of its bytes that the request fills is the
  list \<open>th_info\<close> of these bytes, and \<open>th_len\<close> is its length.
\<close>

datatype request = TH_HIST_KEEP | TH_HIST_PREV | TH_HIST_NEXT | TH_OTHER int

record ttyhelper =
  th_request :: request
  th_pid :: pid_t
  th_tty :: dev_t
  th_info :: string

definition th_len :: "ttyhelper \<Rightarrow> nat" where
  "th_len th = length (th_info th)"

text \<open>
  The store of line nodes, and the addresses that \<^verbatim>\<open>malloc\<close> has not handed out
  yet, in the order in which it will. An address is never handed out twice, so a
  pointer to a freed node stays dangling for ever.
\<close>

record heap =
  cells :: "(addr, line) fmap"
  avail :: "addr list"

text \<open>
  What a call can end in instead of returning: \<^verbatim>\<open>exit (EXIT_FAILURE)\<close> after a failed
  \<^verbatim>\<open>malloc\<close>, or the dereference of a pointer to no allocated node.
\<close>

datatype error = OutOfMemory | Fault

text \<open>
  What a request sends out: nothing, a beep on the terminal, a line put into the
  terminal's input buffer (\<^verbatim>\<open>TIOCTOEOL\<close> and \<^verbatim>\<open>TIOCSINPUT\<close> with the text of a
  \<^verbatim>\<open>struct ttyinput\<close>, whose length is the \<^verbatim>\<open>strlen\<close> of the text), or one of the two
  complaints on \<^verbatim>\<open>stderr\<close>.
\<close>

datatype feedback =
  Silent
  | Beep
  | Input string
  | UnknownRequest int string
  | UnknownTty dev_t

text \<open>The outcome of \<^verbatim>\<open>kill (pid, 0)\<close>: \<open>None\<close> when it returns 0, else \<^verbatim>\<open>errno\<close>.\<close>

datatype errno = ESRCH | EPERM | EINVAL

subsection \<open>Allocation and strings\<close>

definition malloc :: "heap \<Rightarrow> (addr \<times> heap) option" where
  "malloc hp = (case avail hp of [] \<Rightarrow> None | a # as \<Rightarrow> Some (a, hp\<lparr>avail := as\<rparr>))"

text \<open>
  \<^verbatim>\<open>strncpy (dst, src, n); dst[n] = '\0'\<close>, read back as a C string: at most \<open>n\<close>
  bytes of the source, up to its first NUL byte.
\<close>

definition strncpy :: "string \<Rightarrow> nat \<Rightarrow> string" where
  "strncpy src n = takeWhile (\<lambda>c. c \<noteq> CHR 0x00) (take n src)"

subsection \<open>handlehist\<close>

text \<open>
  The label \<^verbatim>\<open>totty\<close>: put the current line, or the empty line when there is none,
  into the terminal's input buffer.
\<close>

definition totty :: "hist \<Rightarrow> heap \<Rightarrow> error + (hist \<times> heap \<times> feedback)" where
  "totty h hp =
     (case current h of
        None \<Rightarrow> Inr (h, hp, Input [])
      | Some c \<Rightarrow>
          (case fmlookup (cells hp) c of
             None \<Rightarrow> Inl Fault
           | Some l \<Rightarrow> Inr (h, hp, Input (text' l))))"

text \<open>
  \<^verbatim>\<open>TH_HIST_KEEP\<close>: when the request has a text, allocate a node and its text buffer,
  link the node behind the last line and make it the last line; in any case go back
  to the bottom of the list. The text buffer takes the address \<open>t\<close> from \<^verbatim>\<open>malloc\<close>;
  what it holds is kept in the node.
\<close>

definition hist_keep :: "ttyhelper \<Rightarrow> hist \<Rightarrow> heap \<Rightarrow> error + (hist \<times> heap \<times> feedback)" where
  "hist_keep th h hp =
     (if th_len th \<noteq> 0 then
        (case malloc hp of
           None \<Rightarrow> Inl OutOfMemory
         | Some (l, hp1) \<Rightarrow>
             (case malloc hp1 of
                None \<Rightarrow> Inl OutOfMemory
              | Some (t, hp2) \<Rightarrow>
                  (let node = \<lparr>prev = lines h, text' = strncpy (th_info th) (th_len th),
                                next' = None\<rparr>;
                       m = fmupd l node (cells hp2)
                   in case lines h of
                        None \<Rightarrow>
                          Inr (h\<lparr>lines := Some l, current := None\<rparr>, hp2\<lparr>cells := m\<rparr>, Silent)
                      | Some old \<Rightarrow>
                          (case fmlookup m old of
                             None \<Rightarrow> Inl Fault
                           | Some ll \<Rightarrow>
                               Inr (h\<lparr>lines := Some l, current := None\<rparr>,
                                    hp2\<lparr>cells := fmupd old (ll\<lparr>next' := Some l\<rparr>) m\<rparr>,
                                    Silent)))))
      else Inr (h\<lparr>current := None\<rparr>, hp, Silent))"

text \<open>
  \<^verbatim>\<open>TH_HIST_PREV\<close>: from the bottom go to the last line, or beep when there is none;
  from a line go to its \<^verbatim>\<open>prev\<close>, or do nothing when there is none (the beep there is
  compiled out).
\<close>

definition hist_prev :: "hist \<Rightarrow> heap \<Rightarrow> error + (hist \<times> heap \<times> feedback)" where
  "hist_prev h hp =
     (case current h of
        None \<Rightarrow>
          (case lines h of
             Some old \<Rightarrow> totty (h\<lparr>current := lines h\<rparr>) hp
           | None \<Rightarrow> Inr (h, hp, Beep))
      | Some c \<Rightarrow>
          (case fmlookup (cells hp) c of
             None \<Rightarrow> Inl Fault
           | Some l \<Rightarrow>
               (case prev l of
                  Some p \<Rightarrow> totty (h\<lparr>current := prev l\<rparr>) hp
                | None \<Rightarrow> Inr (h, hp, Silent))))"

text \<open>\<^verbatim>\<open>TH_HIST_NEXT\<close>: at the bottom beep; from a line go to its \<^verbatim>\<open>next\<close>.\<close>

definition hist_next :: "hist \<Rightarrow> heap \<Rightarrow> error + (hist \<times> heap \<times> feedback)" where
  "hist_next h hp =
     (case current h of
        None \<Rightarrow> Inr (h, hp, Beep)
      | Some c \<Rightarrow>
          (case fmlookup (cells hp) c of
             None \<Rightarrow> Inl Fault
           | Some l \<Rightarrow> totty (h\<lparr>current := next' l\<rparr>) hp))"

definition handlehist ::
  "ttyhelper \<Rightarrow> hist \<Rightarrow> ttylist \<Rightarrow> heap \<Rightarrow> error + (hist \<times> heap \<times> feedback)" where
  "handlehist th h t hp =
     (case th_request th of
        TH_HIST_KEEP \<Rightarrow> hist_keep th h hp
      | TH_HIST_PREV \<Rightarrow> hist_prev h hp
      | TH_HIST_NEXT \<Rightarrow> hist_next h hp
      | TH_OTHER c \<Rightarrow> Inr (h, hp, UnknownRequest c (name t)))"

subsection \<open>findhist\<close>

text \<open>The position of the first history of the process and device, if there is one.\<close>

fun lookup :: "hist list \<Rightarrow> pid_t \<Rightarrow> dev_t \<Rightarrow> nat option" where
  "lookup [] p d = None"
| "lookup (h # hs) p d =
     (if pid h = p \<and> hist.dev h = d then Some 0 else map_option Suc (lookup hs p d))"

text \<open>
  The history found, as its position in the list, or a new empty one put in front of
  the list. The new \<^verbatim>\<open>struct hist\<close> takes an address from \<^verbatim>\<open>malloc\<close>, and is kept in
  the list.
\<close>

definition findhist ::
  "hist list \<Rightarrow> pid_t \<Rightarrow> dev_t \<Rightarrow> heap \<Rightarrow> error + (nat \<times> hist list \<times> heap)" where
  "findhist hists p d hp =
     (case lookup hists p d of
        Some i \<Rightarrow> Inr (i, hists, hp)
      | None \<Rightarrow>
          (case malloc hp of
             None \<Rightarrow> Inl OutOfMemory
           | Some (a, hp1) \<Rightarrow>
               Inr (0, \<lparr>pid = p, dev = d, lines = None, current = None\<rparr> # hists, hp1)))"

subsection \<open>cleanup\<close>

text \<open>
  The inner loop of \<^verbatim>\<open>cleanup\<close>: free the lines from the last one back along
  \<^verbatim>\<open>prev\<close>. Every round frees a node, so the loop ends.
\<close>

function freelines :: "addr option \<Rightarrow> (addr, line) fmap \<Rightarrow> error + (addr, line) fmap" where
  "freelines None m = Inr m"
| "freelines (Some a) m =
     (case fmlookup m a of
        None \<Rightarrow> Inl Fault
      | Some l \<Rightarrow> freelines (prev l) (fmdrop a m))"
  by pat_completeness auto
termination
proof (relation "measure (\<lambda>(p, m). fcard (fmdom m))")
  show "wf (measure (\<lambda>(p, m). fcard (fmdom m)))"
    by simp
next
  fix a :: addr and m :: "(addr, line) fmap" and l
  assume "fmlookup m a = Some l"
  then have "a |\<in>| fmdom m"
    by (rule fmdomI)
  then have "fcard (fmdom m - {|a|}) < fcard (fmdom m)"
    by (rule fcard_fminus1_less)
  then show "((prev l, fmdrop a m), (Some a, m)) \<in> measure (\<lambda>(p, m). fcard (fmdom m))"
    by simp
qed

text \<open>
  The outer loop: a history whose process \<^verbatim>\<open>kill\<close> reports as \<^verbatim>\<open>ESRCH\<close> is unlinked
  and freed with its lines; every other history stays.
\<close>

fun cleanup ::
  "(pid_t \<Rightarrow> errno option) \<Rightarrow> hist list \<Rightarrow> heap \<Rightarrow> error + (hist list \<times> heap)" where
  "cleanup kill [] hp = Inr ([], hp)"
| "cleanup kill (h # hs) hp =
     (if kill (pid h) = Some ESRCH then
        (case freelines (lines h) (cells hp) of
           Inl e \<Rightarrow> Inl e
         | Inr m \<Rightarrow> cleanup kill hs (hp\<lparr>cells := m\<rparr>))
      else
        (case cleanup kill hs hp of
           Inl e \<Rightarrow> Inl e
         | Inr (hs', hp') \<Rightarrow> Inr (h # hs', hp')))"

subsection \<open>One request of the main loop\<close>

definition findtty :: "ttylist list \<Rightarrow> dev_t \<Rightarrow> ttylist option" where
  "findtty ttys d = find (\<lambda>t. ttylist.dev t = d) ttys"

text \<open>
  The body of the main loop for a request that \<^verbatim>\<open>ioctl\<close> has delivered: discard it
  in the first two seconds; complain when the terminal is unknown; else find or create
  the history, handle the request on it and clean up.
\<close>

definition serve ::
  "(pid_t \<Rightarrow> errno option) \<Rightarrow> ttylist list \<Rightarrow> time_t \<Rightarrow> time_t \<Rightarrow> ttyhelper \<Rightarrow>
     hist list \<times> heap \<Rightarrow> error + ((hist list \<times> heap) \<times> feedback)" where
  "serve kill ttys starttime now th s =
     (if now \<le> starttime + 2 then Inr (s, Silent)
      else
        (case findtty ttys (th_tty th) of
           None \<Rightarrow> Inr (s, UnknownTty (th_tty th))
         | Some t \<Rightarrow>
             (case findhist (fst s) (th_pid th) (th_tty th) (snd s) of
                Inl e \<Rightarrow> Inl e
              | Inr (i, hists1, hp1) \<Rightarrow>
                  (case handlehist th (hists1 ! i) t hp1 of
                     Inl e \<Rightarrow> Inl e
                   | Inr (h', hp2, fb) \<Rightarrow>
                       (case cleanup kill (hists1[i := h']) hp2 of
                          Inl e \<Rightarrow> Inl e
                        | Inr s' \<Rightarrow> Inr (s', fb))))))"

subsection \<open>Sequences of requests on one history\<close>

text \<open>\<^verbatim>\<open>handlehist\<close> on one request after the other, collecting what is sent out.\<close>

fun run ::
  "ttyhelper list \<Rightarrow> hist \<Rightarrow> ttylist \<Rightarrow> heap \<Rightarrow> error + (hist \<times> heap \<times> feedback list)" where
  "run [] h t hp = Inr (h, hp, [])"
| "run (th # ths) h t hp =
     (case handlehist th h t hp of
        Inl e \<Rightarrow> Inl e
      | Inr (h1, hp1, fb) \<Rightarrow>
          (case run ths h1 t hp1 of
             Inl e \<Rightarrow> Inl e
           | Inr (h2, hp2, fbs) \<Rightarrow> Inr (h2, hp2, fb # fbs)))"

subsection \<open>The chain of a history and its invariants\<close>

text \<open>
  The nodes of a list of lines, from the last one back along \<^verbatim>\<open>prev\<close>, as far as
  the pointers lead to allocated nodes not met before.
\<close>

function walk :: "addr option \<Rightarrow> (addr, line) fmap \<Rightarrow> addr list" where
  "walk None m = []"
| "walk (Some a) m =
     (case fmlookup m a of
        None \<Rightarrow> []
      | Some l \<Rightarrow> a # walk (prev l) (fmdrop a m))"
  by pat_completeness auto
termination
proof (relation "measure (\<lambda>(p, m). fcard (fmdom m))")
  show "wf (measure (\<lambda>(p, m). fcard (fmdom m)))"
    by simp
next
  fix a :: addr and m :: "(addr, line) fmap" and l
  assume "fmlookup m a = Some l"
  then have "a |\<in>| fmdom m"
    by (rule fmdomI)
  then have "fcard (fmdom m - {|a|}) < fcard (fmdom m)"
    by (rule fcard_fminus1_less)
  then show "((prev l, fmdrop a m), (Some a, m)) \<in> measure (\<lambda>(p, m). fcard (fmdom m))"
    by simp
qed

text \<open>
  The entry chain of a history, oldest entry first, and the texts of its entries.
\<close>

definition chain :: "heap \<Rightarrow> hist \<Rightarrow> addr list" where
  "chain hp h = rev (walk (lines h) (cells hp))"

definition entries :: "heap \<Rightarrow> hist \<Rightarrow> string list" where
  "entries hp h = map (\<lambda>a. text' (the (fmlookup (cells hp) a))) (chain hp h)"

text \<open>
  \<open>dll m nx p as\<close>: in the store \<open>m\<close> the nodes \<open>as\<close> are a doubly linked list that
  starts at the pointer \<open>p\<close> and runs along \<^verbatim>\<open>prev\<close> to the null pointer; each
  node's \<^verbatim>\<open>next\<close> points to the node before it in \<open>as\<close>, the first one's to \<open>nx\<close>.
\<close>

primrec dll :: "(addr, line) fmap \<Rightarrow> addr option \<Rightarrow> addr option \<Rightarrow> addr list \<Rightarrow> bool" where
  "dll m nx p [] \<longleftrightarrow> p = None"
| "dll m nx p (a # as) \<longleftrightarrow>
     p = Some a \<and>
     (case fmlookup m a of
        None \<Rightarrow> False
      | Some l \<Rightarrow> next' l = nx \<and> dll m (Some a) (prev l) as)"

text \<open>
  A history is in order when its lines are a doubly linked list that ends at
  \<open>lines\<close>, and \<open>current\<close>, when set, points to a node of its chain.
\<close>

definition hist_ok :: "heap \<Rightarrow> hist \<Rightarrow> bool" where
  "hist_ok hp h \<longleftrightarrow>
     dll (cells hp) None (lines h) (walk (lines h) (cells hp)) \<and>
     (case current h of None \<Rightarrow> True | Some c \<Rightarrow> c \<in> set (chain hp h))"

text \<open>\<^verbatim>\<open>malloc\<close> hands out every address once, and none that is allocated.\<close>

definition heap_ok :: "heap \<Rightarrow> bool" where
  "heap_ok hp \<longleftrightarrow> distinct (avail hp) \<and> set (avail hp) \<inter> fmdom' (cells hp) = {}"

text \<open>
  The whole store is in order when every history is and no node belongs to two
  chains.
\<close>

definition store_ok :: "hist list \<Rightarrow> heap \<Rightarrow> bool" where
  "store_ok hists hp \<longleftrightarrow>
     heap_ok hp \<and> list_all (hist_ok hp) hists \<and> distinct (concat (map (chain hp) hists))"

text \<open>
  The states the daemon can be in: it starts with no history and no line, and goes
  on by \<^verbatim>\<open>findhist\<close>, by \<^verbatim>\<open>handlehist\<close> on one of its histories, and by
  \<^verbatim>\<open>cleanup\<close>.
\<close>

inductive reachable :: "hist list \<Rightarrow> heap \<Rightarrow> bool" where
  start: "distinct (avail hp) \<Longrightarrow> cells hp = fmempty \<Longrightarrow> reachable [] hp"
| find: "reachable hists hp \<Longrightarrow> findhist hists p d hp = Inr (i, hists', hp') \<Longrightarrow>
     reachable hists' hp'"
| handle: "reachable hists hp \<Longrightarrow> i < length hists \<Longrightarrow>
     handlehist th (hists ! i) t hp = Inr (h', hp', fb) \<Longrightarrow> reachable (hists[i := h']) hp'"
| sweep: "reachable hists hp \<Longrightarrow> cleanup kill hists hp = Inr (hists', hp') \<Longrightarrow>
     reachable hists' hp'"

text \<open>A text that \<^verbatim>\<open>strncpy\<close> copies whole: it has no NUL byte in it.\<close>

definition cstring :: "string \<Rightarrow> bool" where
  "cstring s \<longleftrightarrow> CHR 0x00 \<notin> set s"

subsection \<open>An example\<close>

text \<open>
  The process 100 on the terminal 5, before its first line and after the two lines
  \<^verbatim>\<open>ls\<close> and \<^verbatim>\<open>pwd\<close>; a second process 200 that has one line \<^verbatim>\<open>date\<close>; two
  outcomes of \<^verbatim>\<open>kill\<close>, one where the process 100 is gone and the process 200 may
  not be signalled, and one where every process is there; the memory at the start of
  the daemon.
\<close>

definition tty5 :: ttylist where
  "tty5 = \<lparr>name = ''ttyp5'', dev = 5\<rparr>"

definition req :: "request \<Rightarrow> string \<Rightarrow> ttyhelper" where
  "req k s = \<lparr>th_request = k, th_pid = 100, th_tty = 5, th_info = s\<rparr>"

definition hist0 :: hist where
  "hist0 = \<lparr>pid = 100, dev = 5, lines = None, current = None\<rparr>"

definition heap0 :: heap where
  "heap0 = \<lparr>cells = fmempty, avail = [0, 1, 2, 3, 4, 5, 6, 7]\<rparr>"

definition hist2 :: "addr option \<Rightarrow> hist" where
  "hist2 c = \<lparr>pid = 100, dev = 5, lines = Some 2, current = c\<rparr>"

definition heap2 :: heap where
  "heap2 =
     \<lparr>cells = fmupd 0 \<lparr>prev = None, text' = ''ls'', next' = Some 2\<rparr>
                (fmupd 2 \<lparr>prev = Some 0, text' = ''pwd'', next' = None\<rparr> fmempty),
      avail = [4, 5, 6, 7]\<rparr>"

definition hist3 :: hist where
  "hist3 = \<lparr>pid = 200, dev = 5, lines = Some 4, current = Some 4\<rparr>"

definition heap3 :: heap where
  "heap3 =
     \<lparr>cells = fmupd 4 \<lparr>prev = None, text' = ''date'', next' = None\<rparr> (cells heap2),
      avail = [6, 7]\<rparr>"

definition gone100 :: "pid_t \<Rightarrow> errno option" where
  "gone100 p = (if p = 100 then Some ESRCH else if p = 200 then Some EPERM else None)"

definition all_alive :: "pid_t \<Rightarrow> errno option" where
  "all_alive p = None"

definition heap9 :: heap where
  "heap9 = \<lparr>cells = fmempty, avail = [9, 0, 1, 2, 3, 4, 5, 6, 7]\<rparr>"

text \<open>
  A text of five bytes whose third byte is NUL, and the process 100 after the one
  line that this text leaves behind.
\<close>

definition nul_text :: string where
  "nul_text = [CHR ''a'', CHR ''b'', CHR 0x00, CHR ''c'', CHR ''d'']"

definition hist1 :: "addr option \<Rightarrow> hist" where
  "hist1 c = \<lparr>pid = 100, dev = 5, lines = Some 0, current = c\<rparr>"

definition heap1 :: heap where
  "heap1 =
     \<lparr>cells = fmupd 0 \<lparr>prev = None, text' = ''ab'', next' = None\<rparr> fmempty,
      avail = [2, 3, 4, 5, 6, 7]\<rparr>"

section \<open>Properties\<close>

subsection \<open>Chains\<close>

lemma walk_dom: "set (walk p m) \<subseteq> fmdom' m"
proof (induction p m rule: walk.induct)
  case (1 m)
  then show ?case by simp
next
  case (2 a m)
  show ?case
  proof (cases "fmlookup m a")
    case None
    then show ?thesis by simp
  next
    case (Some l)
    with 2 have "set (walk (prev l) (fmdrop a m)) \<subseteq> fmdom' m - {a}"
      by simp
    with Some show ?thesis
      by (auto simp: fmdom'I)
  qed
qed

lemma walk_distinct: "distinct (walk p m)"
proof (induction p m rule: walk.induct)
  case (1 m)
  then show ?case by simp
next
  case (2 a m)
  show ?case
  proof (cases "fmlookup m a")
    case None
    then show ?thesis by simp
  next
    case (Some l)
    have "set (walk (prev l) (fmdrop a m)) \<subseteq> fmdom' (fmdrop a m)"
      by (rule walk_dom)
    then have "a \<notin> set (walk (prev l) (fmdrop a m))"
      by auto
    with 2 Some show ?thesis
      by simp
  qed
qed

lemma dll_agree:
  "\<forall>a\<in>set as. fmlookup m' a = fmlookup m a \<Longrightarrow> dll m' nx p as = dll m nx p as"
  by (induction as arbitrary: nx p) (auto split: option.splits)

lemma dll_first:
  "dll m nx p as \<Longrightarrow> p = Some a \<Longrightarrow>
     \<exists>l bs. as = a # bs \<and> fmlookup m a = Some l \<and> next' l = nx \<and> dll m (Some a) (prev l) bs"
  by (cases as) (auto split: option.splits)

lemma dll_walk: "dll m nx p as \<Longrightarrow> distinct as \<Longrightarrow> walk p m = as"
proof (induction as arbitrary: m nx p)
  case Nil
  then show ?case by simp
next
  case (Cons a as)
  from Cons.prems obtain l where l: "p = Some a" "fmlookup m a = Some l"
    "dll m (Some a) (prev l) as"
    by (auto split: option.splits)
  from Cons.prems have "a \<notin> set as" "distinct as"
    by simp_all
  then have "dll (fmdrop a m) (Some a) (prev l) as"
    using l(3) by (subst dll_agree [where m = m]) auto
  then have "walk (prev l) (fmdrop a m) = as"
    using \<open>distinct as\<close> by (rule Cons.IH)
  with l show ?case
    by simp
qed

lemma freelines_walk:
  "dll m nx p as \<Longrightarrow> distinct as \<Longrightarrow> freelines p m = Inr (fmdrop_set (set as) m)"
proof (induction as arbitrary: m nx p)
  case Nil
  then show ?case by simp
next
  case (Cons a as)
  from Cons.prems obtain l where l: "p = Some a" "fmlookup m a = Some l"
    "dll m (Some a) (prev l) as"
    by (auto split: option.splits)
  from Cons.prems have "a \<notin> set as" "distinct as"
    by simp_all
  then have "dll (fmdrop a m) (Some a) (prev l) as"
    using l(3) by (subst dll_agree [where m = m]) auto
  then have "freelines (prev l) (fmdrop a m) = Inr (fmdrop_set (set as) (fmdrop a m))"
    using \<open>distinct as\<close> by (rule Cons.IH)
  with l show ?case
    by simp
qed

lemma strncpy_cstring: "cstring s \<Longrightarrow> strncpy s (length s) = s"
  by (auto simp: strncpy_def cstring_def)

lemma chain_distinct: "distinct (chain hp h)"
  by (simp add: chain_def walk_distinct)

lemma chain_dom: "set (chain hp h) \<subseteq> fmdom' (cells hp)"
  using walk_dom [of "lines h" "cells hp"] by (simp add: chain_def)

lemma hist_frame:
  assumes ok: "hist_ok hp h"
    and same: "\<forall>a\<in>set (chain hp h). fmlookup (cells hp') a = fmlookup (cells hp) a"
  shows "hist_ok hp' h \<and> chain hp' h = chain hp h \<and> entries hp' h = entries hp h"
proof -
  let ?as = "walk (lines h) (cells hp)"
  from ok have "dll (cells hp) None (lines h) ?as"
    by (simp add: hist_ok_def)
  with same have "dll (cells hp') None (lines h) ?as"
    by (subst dll_agree [where m = "cells hp"]) (simp_all add: chain_def)
  then have w: "walk (lines h) (cells hp') = ?as"
    by (rule dll_walk) (rule walk_distinct)
  then have c: "chain hp' h = chain hp h"
    by (simp add: chain_def)
  from same have "entries hp' h = entries hp h"
    by (simp add: entries_def c)
  with ok w c \<open>dll (cells hp') None (lines h) ?as\<close> show ?thesis
    by (auto simp: hist_ok_def split: option.splits)
qed

lemma dll_nth:
  "dll m nx p as \<Longrightarrow> j < length as \<Longrightarrow>
     \<exists>l. fmlookup m (as ! j) = Some l \<and>
         prev l = (if Suc j < length as then Some (as ! Suc j) else None) \<and>
         next' l = (if j = 0 then nx else Some (as ! (j - 1)))"
proof (induction as arbitrary: nx p j)
  case Nil
  then show ?case by simp
next
  case (Cons a as)
  from Cons.prems(1) obtain l where l: "fmlookup m a = Some l" "next' l = nx"
    "dll m (Some a) (prev l) as"
    by (auto split: option.splits)
  show ?case
  proof (cases j)
    case 0
    from l(3) have "prev l = (if as = [] then None else Some (hd as))"
      by (cases as) auto
    with 0 l show ?thesis
      by (cases as) auto
  next
    case (Suc k)
    with Cons.prems(2) have "k < length as"
      by simp
    from Cons.IH [OF l(3) this] Suc show ?thesis
      by (cases k) auto
  qed
qed

lemma dll_lines: "dll m nx p as \<Longrightarrow> p = (if as = [] then None else Some (hd as))"
  by (cases as) auto

lemma chain_lines:
  "hist_ok hp h \<Longrightarrow> lines h = (if chain hp h = [] then None else Some (last (chain hp h)))"
  by (auto simp: hist_ok_def chain_def last_rev dest: dll_lines)

lemma chain_nth:
  assumes ok: "hist_ok hp h" and i: "i < length (chain hp h)"
  shows "\<exists>l. fmlookup (cells hp) (chain hp h ! i) = Some l \<and>
           prev l = (if 0 < i then Some (chain hp h ! (i - 1)) else None) \<and>
           next' l = (if Suc i < length (chain hp h) then Some (chain hp h ! Suc i) else None) \<and>
           text' l = entries hp h ! i"
proof -
  let ?as = "walk (lines h) (cells hp)"
  let ?n = "length ?as"
  have len: "length (chain hp h) = ?n"
    by (simp add: chain_def)
  with i have i': "i < ?n"
    by simp
  have nth: "chain hp h ! k = ?as ! (?n - Suc k)" if "k < ?n" for k
    using that by (simp add: chain_def rev_nth)
  from ok have "dll (cells hp) None (lines h) ?as"
    by (simp add: hist_ok_def)
  moreover from i' have "?n - Suc i < ?n"
    by simp
  ultimately obtain l where
    l: "fmlookup (cells hp) (?as ! (?n - Suc i)) = Some l"
      "prev l = (if Suc (?n - Suc i) < ?n then Some (?as ! Suc (?n - Suc i)) else None)"
      "next' l = (if ?n - Suc i = 0 then None else Some (?as ! (?n - Suc i - 1)))"
    using dll_nth [of "cells hp" None "lines h" ?as "?n - Suc i"] by blast
  have "Suc (?n - Suc i) = ?n - i"
    using i' by simp
  have p: "prev l = (if 0 < i then Some (chain hp h ! (i - 1)) else None)"
  proof (cases i)
    case 0
    with l(2) show ?thesis by simp
  next
    case (Suc k)
    with i' have "Suc (?n - Suc i) = ?n - Suc k" "k < ?n"
      by simp_all
    with l(2) Suc i' show ?thesis
      by (simp add: nth)
  qed
  have n: "next' l = (if Suc i < length (chain hp h) then Some (chain hp h ! Suc i) else None)"
  proof (cases "Suc i < ?n")
    case True
    then have "?n - Suc i - 1 = ?n - Suc (Suc i)" "?n - Suc i \<noteq> 0"
      by simp_all
    with l(3) True show ?thesis
      by (simp add: nth len)
  next
    case False
    with i' have "?n - Suc i = 0"
      by simp
    with l(3) False show ?thesis
      by (simp add: len)
  qed
  from l(1) i' have "fmlookup (cells hp) (chain hp h ! i) = Some l"
    by (simp add: nth)
  moreover from this i have "text' l = entries hp h ! i"
    by (simp add: entries_def)
  ultimately show ?thesis
    using p n by blast
qed

subsection \<open>Unknown requests\<close>

text \<open>
  C3. On a request whose kind is none of the three known ones, \<^verbatim>\<open>handlehist\<close>
  answers with the complaint about an unknown request and returns the history and the
  store of lines as they were: the same chain, the same texts in the same order, the
  same \<open>current\<close>.
\<close>

theorem handlehist_unknown:
  "handlehist (th\<lparr>th_request := TH_OTHER c\<rparr>) h t hp = Inr (h, hp, UnknownRequest c (name t))"
  by (simp add: handlehist_def)

subsection \<open>The example\<close>

lemmas example_defs = tty5_def req_def hist0_def heap0_def hist2_def heap2_def hist3_def
  heap3_def gone100_def all_alive_def heap9_def

text \<open>
  The scenario of the process 100: two lines are stored, then the history is walked
  up to its oldest line, once more up in vain, and down again to the bottom.
\<close>

lemma example_run:
  "run [req TH_HIST_KEEP ''ls'', req TH_HIST_KEEP ''pwd'', req TH_HIST_PREV [],
        req TH_HIST_PREV [], req TH_HIST_PREV [], req TH_HIST_NEXT [], req TH_HIST_NEXT []]
     hist0 tty5 heap0 =
     Inr (hist2 None, heap2,
          [Silent, Silent, Input ''pwd'', Input ''ls'', Silent, Input ''pwd'', Input []])"
  by (auto simp: example_defs handlehist_def hist_keep_def hist_prev_def hist_next_def
      totty_def malloc_def th_len_def strncpy_def Let_def intro!: fmap_ext)

lemma hist0_ok: "hist_ok heap0 hist0"
  by (simp add: example_defs hist_ok_def)

lemma hist2_chain: "chain heap2 (hist2 c) = [0, 2]"
  by (simp add: example_defs chain_def)

lemma hist2_entries: "entries heap2 (hist2 c) = [''ls'', ''pwd'']"
  by (simp add: entries_def hist2_chain) (simp add: example_defs)

lemma hist2_ok: "c = None \<or> c = Some 0 \<or> c = Some 2 \<Longrightarrow> hist_ok heap2 (hist2 c)"
  by (auto simp: hist_ok_def chain_def example_defs)

lemma heap2_ok: "heap_ok heap2"
  by (simp add: heap2_def heap_ok_def)

subsection \<open>Moving up and down\<close>

lemma chain_last:
  assumes "hist_ok hp h" and "chain hp h \<noteq> []"
  shows "lines h = Some (last (chain hp h)) \<and>
         (\<exists>l. fmlookup (cells hp) (last (chain hp h)) = Some l \<and> next' l = None \<and>
              text' l = last (entries hp h))"
proof -
  let ?n = "length (chain hp h)"
  from assms(2) have n: "?n - 1 < ?n" "Suc (?n - 1) = ?n"
    by simp_all
  from assms(2) have "last (chain hp h) = chain hp h ! (?n - 1)"
    by (rule last_conv_nth)
  moreover from assms(2) have "last (entries hp h) = entries hp h ! (?n - 1)"
    by (simp add: entries_def last_conv_nth)
  moreover from chain_nth [OF assms(1) n(1)] n(2)
  have "\<exists>l. fmlookup (cells hp) (chain hp h ! (?n - 1)) = Some l \<and> next' l = None \<and>
          text' l = entries hp h ! (?n - 1)"
    by auto
  ultimately show ?thesis
    using assms by (simp add: chain_lines)
qed

lemma prev_bottom:
  assumes "hist_ok hp h" and "current h = None" and "chain hp h \<noteq> []"
  shows "hist_prev h hp =
           Inr (h\<lparr>current := Some (last (chain hp h))\<rparr>, hp, Input (last (entries hp h)))"
  using chain_last [OF assms(1,3)] assms(2) by (auto simp: hist_prev_def totty_def)

lemma prev_empty:
  assumes "hist_ok hp h" and "current h = None" and "chain hp h = []"
  shows "hist_prev h hp = Inr (h, hp, Beep)"
  using chain_lines [OF assms(1)] assms(2,3) by (simp add: hist_prev_def)

lemma prev_entry:
  assumes "hist_ok hp h" and "Suc i < length (chain hp h)"
    and "current h = Some (chain hp h ! Suc i)"
  shows "hist_prev h hp =
           Inr (h\<lparr>current := Some (chain hp h ! i)\<rparr>, hp, Input (entries hp h ! i))"
proof -
  from chain_nth [OF assms(1,2)] obtain l where
    "fmlookup (cells hp) (chain hp h ! Suc i) = Some l" "prev l = Some (chain hp h ! i)"
    by auto
  moreover from assms(2) have "i < length (chain hp h)"
    by simp
  from chain_nth [OF assms(1) this] obtain l' where
    "fmlookup (cells hp) (chain hp h ! i) = Some l'" "text' l' = entries hp h ! i"
    by auto
  ultimately show ?thesis
    using assms(3) by (simp add: hist_prev_def totty_def)
qed

lemma prev_oldest:
  assumes "hist_ok hp h" and "chain hp h \<noteq> []" and "current h = Some (hd (chain hp h))"
  shows "hist_prev h hp = Inr (h, hp, Silent)"
proof -
  from assms(2) have "0 < length (chain hp h)"
    by simp
  from chain_nth [OF assms(1) this] obtain l where
    "fmlookup (cells hp) (chain hp h ! 0) = Some l" "prev l = None"
    by auto
  with assms(2,3) show ?thesis
    by (simp add: hist_prev_def hd_conv_nth)
qed

lemma next_bottom: "current h = None \<Longrightarrow> hist_next h hp = Inr (h, hp, Beep)"
  by (simp add: hist_next_def)

lemma next_entry:
  assumes "hist_ok hp h" and "Suc i < length (chain hp h)"
    and "current h = Some (chain hp h ! i)"
  shows "hist_next h hp =
           Inr (h\<lparr>current := Some (chain hp h ! Suc i)\<rparr>, hp, Input (entries hp h ! Suc i))"
proof -
  from assms(2) have "i < length (chain hp h)"
    by simp
  from chain_nth [OF assms(1) this] assms(2) obtain l where
    "fmlookup (cells hp) (chain hp h ! i) = Some l" "next' l = Some (chain hp h ! Suc i)"
    by auto
  moreover from chain_nth [OF assms(1,2)] obtain l' where
    "fmlookup (cells hp) (chain hp h ! Suc i) = Some l'" "text' l' = entries hp h ! Suc i"
    by auto
  ultimately show ?thesis
    using assms(3) by (simp add: hist_next_def totty_def)
qed

lemma next_newest:
  assumes "hist_ok hp h" and "chain hp h \<noteq> []" and "current h = Some (last (chain hp h))"
  shows "hist_next h hp = Inr (h\<lparr>current := None\<rparr>, hp, Input [])"
  using chain_last [OF assms(1,2)] assms(3) by (auto simp: hist_next_def totty_def)

text \<open>
  C4. StepOlder on a history that is in order. At the bottom with a non-empty chain,
  \<open>current\<close> moves to the newest entry (the last of the chain) and its text is put
  into the terminal's input; at the bottom with an empty chain there is a beep and
  \<open>current\<close> stays at the bottom; on an entry that has an older neighbour, \<open>current\<close>
  moves to that neighbour and its text is put into the input; on the oldest entry
  nothing changes and nothing is sent, neither a text nor a beep.
\<close>

theorem step_older:
  assumes "th_request th = TH_HIST_PREV" and "hist_ok hp h"
  shows "(current h = None \<and> chain hp h \<noteq> [] \<longrightarrow>
            handlehist th h t hp =
              Inr (h\<lparr>current := Some (last (chain hp h))\<rparr>, hp, Input (last (entries hp h)))) \<and>
         (current h = None \<and> chain hp h = [] \<longrightarrow> handlehist th h t hp = Inr (h, hp, Beep)) \<and>
         (\<forall>i. Suc i < length (chain hp h) \<and> current h = Some (chain hp h ! Suc i) \<longrightarrow>
            handlehist th h t hp =
              Inr (h\<lparr>current := Some (chain hp h ! i)\<rparr>, hp, Input (entries hp h ! i))) \<and>
         (chain hp h \<noteq> [] \<and> current h = Some (hd (chain hp h)) \<longrightarrow>
            handlehist th h t hp = Inr (h, hp, Silent))"
  using assms by (simp add: handlehist_def prev_bottom prev_empty prev_entry prev_oldest)

text \<open>
  C5. StepNewer on a history that is in order. At the bottom there is a beep and
  \<open>current\<close> stays at the bottom; on an entry that has a newer neighbour,
  \<open>current\<close> moves to that neighbour and its text is put into the terminal's input;
  on the newest entry \<open>current\<close> goes back to the bottom and the empty line is put
  into the input.
\<close>

theorem step_newer:
  assumes "th_request th = TH_HIST_NEXT" and "hist_ok hp h"
  shows "(current h = None \<longrightarrow> handlehist th h t hp = Inr (h, hp, Beep)) \<and>
         (\<forall>i. Suc i < length (chain hp h) \<and> current h = Some (chain hp h ! i) \<longrightarrow>
            handlehist th h t hp =
              Inr (h\<lparr>current := Some (chain hp h ! Suc i)\<rparr>, hp,
                   Input (entries hp h ! Suc i))) \<and>
         (chain hp h \<noteq> [] \<and> current h = Some (last (chain hp h)) \<longrightarrow>
            handlehist th h t hp = Inr (h\<lparr>current := None\<rparr>, hp, Input []))"
  using assms by (simp add: handlehist_def next_bottom next_entry next_newest)

theorem step_older_witness:
  "handlehist (req TH_HIST_PREV []) (hist2 None) tty5 heap2 =
     Inr (hist2 (Some 2), heap2, Input ''pwd'') \<and>
   handlehist (req TH_HIST_PREV []) hist0 tty5 heap0 = Inr (hist0, heap0, Beep) \<and>
   handlehist (req TH_HIST_PREV []) (hist2 (Some 2)) tty5 heap2 =
     Inr (hist2 (Some 0), heap2, Input ''ls'') \<and>
   handlehist (req TH_HIST_PREV []) (hist2 (Some 0)) tty5 heap2 =
     Inr (hist2 (Some 0), heap2, Silent)"
proof -
  have r: "th_request (req TH_HIST_PREV []) = TH_HIST_PREV"
    by (simp add: req_def)
  have "handlehist (req TH_HIST_PREV []) (hist2 None) tty5 heap2 =
      Inr (hist2 (Some 2), heap2, Input ''pwd'')"
    using step_older [OF r hist2_ok, of None tty5]
    by (simp add: hist2_chain hist2_entries) (simp add: hist2_def)
  moreover have "handlehist (req TH_HIST_PREV []) hist0 tty5 heap0 = Inr (hist0, heap0, Beep)"
    using step_older [OF r hist0_ok, of tty5] by (simp add: chain_def) (simp add: example_defs)
  moreover have "handlehist (req TH_HIST_PREV []) (hist2 (Some 2)) tty5 heap2 =
      Inr (hist2 (Some 0), heap2, Input ''ls'')"
    using step_older [OF r hist2_ok, of "Some 2" tty5,
        THEN conjunct2, THEN conjunct2, THEN conjunct1, THEN spec, of 0]
    by (simp add: hist2_chain hist2_entries) (simp add: hist2_def)
  moreover have "handlehist (req TH_HIST_PREV []) (hist2 (Some 0)) tty5 heap2 =
      Inr (hist2 (Some 0), heap2, Silent)"
    using step_older [OF r hist2_ok, of "Some 0" tty5]
    by (simp add: hist2_chain hist2_entries) (simp add: hist2_def)
  ultimately show ?thesis
    by simp
qed

theorem step_newer_witness:
  "handlehist (req TH_HIST_NEXT []) (hist2 None) tty5 heap2 = Inr (hist2 None, heap2, Beep) \<and>
   handlehist (req TH_HIST_NEXT []) (hist2 (Some 0)) tty5 heap2 =
     Inr (hist2 (Some 2), heap2, Input ''pwd'') \<and>
   handlehist (req TH_HIST_NEXT []) (hist2 (Some 2)) tty5 heap2 =
     Inr (hist2 None, heap2, Input [])"
proof -
  have r: "th_request (req TH_HIST_NEXT []) = TH_HIST_NEXT"
    by (simp add: req_def)
  have "handlehist (req TH_HIST_NEXT []) (hist2 None) tty5 heap2 = Inr (hist2 None, heap2, Beep)"
    using step_newer [OF r hist2_ok, of None tty5] by (simp add: hist2_def)
  moreover have "handlehist (req TH_HIST_NEXT []) (hist2 (Some 0)) tty5 heap2 =
      Inr (hist2 (Some 2), heap2, Input ''pwd'')"
    using step_newer [OF r hist2_ok, of "Some 0" tty5,
        THEN conjunct2, THEN conjunct1, THEN spec, of 0]
    by (simp add: hist2_chain hist2_entries) (simp add: hist2_def)
  moreover have "handlehist (req TH_HIST_NEXT []) (hist2 (Some 2)) tty5 heap2 =
      Inr (hist2 None, heap2, Input [])"
    using step_newer [OF r hist2_ok, of "Some 2" tty5]
    by (simp add: hist2_chain hist2_entries) (simp add: hist2_def)
  ultimately show ?thesis
    by simp
qed

subsection \<open>Storing a line\<close>

lemma hist_keep_chain:
  assumes hp: "heap_ok hp" and dl: "dll (cells hp) None (lines h) as" and di: "distinct as"
    and ne: "th_info th \<noteq> []" and av: "2 \<le> length (avail hp)"
  shows "\<exists>l hp'. hist_keep th h hp = Inr (h\<lparr>lines := Some l, current := None\<rparr>, hp', Silent) \<and>
           l \<notin> fmdom' (cells hp) \<and> l = hd (avail hp) \<and> avail hp' = drop 2 (avail hp) \<and>
           dll (cells hp') None (Some l) (l # as) \<and>
           fmdom' (cells hp') = insert l (fmdom' (cells hp)) \<and>
           map_option text' (fmlookup (cells hp') l) = Some (strncpy (th_info th) (th_len th)) \<and>
           (\<forall>a. a \<noteq> l \<longrightarrow>
              map_option text' (fmlookup (cells hp') a) = map_option text' (fmlookup (cells hp) a)) \<and>
           (\<forall>a. a \<noteq> l \<longrightarrow> Some a \<noteq> lines h \<longrightarrow>
              fmlookup (cells hp') a = fmlookup (cells hp) a)"
proof -
  from av obtain l t rest where avl: "avail hp = l # t # rest"
    by (cases "avail hp"; cases "tl (avail hp)") auto
  with hp have fresh: "l \<notin> fmdom' (cells hp)"
    by (auto simp: heap_ok_def)
  define node where
    "node = \<lparr>prev = lines h, text' = strncpy (th_info th) (th_len th), next' = None\<rparr>"
  define m where "m = fmupd l node (cells hp)"
  show ?thesis
  proof (cases "lines h")
    case None
    with dl have "as = []"
      by (cases as) auto
    with None avl fresh show ?thesis
      using ne by (simp add: hist_keep_def malloc_def th_len_def Let_def)
  next
    case (Some old)
    from dll_first [OF dl Some] obtain ll bs where ll: "as = old # bs"
      "fmlookup (cells hp) old = Some ll" "next' ll = None"
      "dll (cells hp) (Some old) (prev ll) bs"
      by blast
    from ll(2) fresh have neq: "old \<noteq> l"
      by (auto simp: fmdom'I)
    from di ll(1) have "old \<notin> set bs"
      by simp
    moreover have "l \<notin> set bs"
      using walk_dom [of "prev ll" "cells hp"] fresh dll_walk [OF ll(4)] di ll(1) by auto
    ultimately have "dll (fmupd old (ll\<lparr>next' := Some l\<rparr>) m) (Some old) (prev ll) bs"
      using ll(4) by (subst dll_agree [where m = "cells hp"]) (auto simp: m_def)
    with Some avl fresh neq ll show ?thesis
      using ne by (auto simp: hist_keep_def malloc_def th_len_def Let_def m_def node_def)
  qed
qed

lemma keep_entry:
  assumes hp: "heap_ok hp" and ok: "hist_ok hp h" and ne: "th_info th \<noteq> []"
    and av: "2 \<le> length (avail hp)"
  shows "\<exists>l hp'. hist_keep th h hp = Inr (h\<lparr>lines := Some l, current := None\<rparr>, hp', Silent) \<and>
           l \<notin> fmdom' (cells hp) \<and> heap_ok hp' \<and> avail hp' = drop 2 (avail hp) \<and>
           fmdom' (cells hp') = insert l (fmdom' (cells hp)) \<and>
           hist_ok hp' (h\<lparr>lines := Some l, current := None\<rparr>) \<and>
           chain hp' (h\<lparr>lines := Some l, current := None\<rparr>) = chain hp h @ [l] \<and>
           entries hp' (h\<lparr>lines := Some l, current := None\<rparr>) =
             entries hp h @ [strncpy (th_info th) (th_len th)] \<and>
           (\<forall>a. a \<noteq> l \<longrightarrow> Some a \<noteq> lines h \<longrightarrow>
              fmlookup (cells hp') a = fmlookup (cells hp) a)"
proof -
  let ?as = "walk (lines h) (cells hp)"
  from ok have "dll (cells hp) None (lines h) ?as"
    by (simp add: hist_ok_def)
  from hist_keep_chain [OF hp this walk_distinct ne av] obtain l hp' where
    r: "hist_keep th h hp = Inr (h\<lparr>lines := Some l, current := None\<rparr>, hp', Silent)"
      "l \<notin> fmdom' (cells hp)" "l = hd (avail hp)" "avail hp' = drop 2 (avail hp)"
      "dll (cells hp') None (Some l) (l # ?as)"
      "fmdom' (cells hp') = insert l (fmdom' (cells hp))"
      "map_option text' (fmlookup (cells hp') l) = Some (strncpy (th_info th) (th_len th))"
      "\<forall>a. a \<noteq> l \<longrightarrow>
         map_option text' (fmlookup (cells hp') a) = map_option text' (fmlookup (cells hp) a)"
      "\<forall>a. a \<noteq> l \<longrightarrow> Some a \<noteq> lines h \<longrightarrow> fmlookup (cells hp') a = fmlookup (cells hp) a"
    by blast
  let ?h = "h\<lparr>lines := Some l, current := None\<rparr>"
  from r(2) have notin: "l \<notin> set ?as"
    using walk_dom [of "lines h" "cells hp"] by auto
  with r(5) have w: "walk (Some l) (cells hp') = l # ?as"
    by (intro dll_walk [where nx = None]) (simp_all add: walk_distinct)
  then have c: "chain hp' ?h = chain hp h @ [l]"
    by (simp add: chain_def)
  have "text' (the (fmlookup (cells hp') a)) = text' (the (fmlookup (cells hp) a))"
    if "a \<in> set ?as" for a
  proof -
    from that notin have "a \<noteq> l"
      by auto
    with r(8) have "map_option text' (fmlookup (cells hp') a) =
        map_option text' (fmlookup (cells hp) a)"
      by simp
    moreover from that have "a \<in> fmdom' (cells hp)"
      using walk_dom [of "lines h" "cells hp"] by auto
    then obtain x where "fmlookup (cells hp) a = Some x"
      by (auto simp: fmlookup_dom'_iff)
    ultimately show ?thesis
      by auto
  qed
  moreover from r(7) have "text' (the (fmlookup (cells hp') l)) = strncpy (th_info th) (th_len th)"
    by auto
  ultimately have e: "entries hp' ?h = entries hp h @ [strncpy (th_info th) (th_len th)]"
    by (simp add: entries_def c) (simp add: chain_def)
  from av obtain x y rest where "avail hp = x # y # rest"
    by (cases "avail hp"; cases "tl (avail hp)") auto
  with hp r(3,4,6) have "heap_ok hp'"
    by (auto simp: heap_ok_def)
  moreover from r(5) w have "hist_ok hp' ?h"
    by (simp add: hist_ok_def)
  ultimately show ?thesis
    using r(1,2,4,6,9) c e by blast
qed

lemma keep_empty: "th_info th = [] \<Longrightarrow> hist_keep th h hp = Inr (h\<lparr>current := None\<rparr>, hp, Silent)"
  by (simp add: hist_keep_def th_len_def)

lemma keep_oom:
  "th_info th \<noteq> [] \<Longrightarrow> length (avail hp) < 2 \<Longrightarrow> hist_keep th h hp = Inl OutOfMemory"
  by (cases "avail hp"; cases "tl (avail hp)")
     (auto simp: hist_keep_def th_len_def malloc_def)

text \<open>
  C7, amended. Record on a history that is in order, wherever \<open>current\<close> is. With a
  non-empty text (and memory for the node and its text buffer) one new entry is
  appended behind the newest one; the entries that were there stay, in their order
  and with their texts; \<open>current\<close> is at the bottom and nothing is sent. The new
  entry holds the text up to its first NUL byte, as \<^verbatim>\<open>strncpy\<close> reads it, which is
  the whole text when it has no NUL byte. Without memory for the two the daemon
  exits. With the empty text no entry is appended, \<open>current\<close> is at the bottom and
  nothing is sent.
\<close>

theorem record_appends:
  assumes "th_request th = TH_HIST_KEEP" and "heap_ok hp" and "hist_ok hp h"
  shows "(th_info th \<noteq> [] \<and> 2 \<le> length (avail hp) \<longrightarrow>
            (\<exists>a hp'. handlehist th h t hp =
                 Inr (h\<lparr>lines := Some a, current := None\<rparr>, hp', Silent) \<and>
               a \<notin> set (chain hp h) \<and>
               chain hp' (h\<lparr>lines := Some a, current := None\<rparr>) = chain hp h @ [a] \<and>
               entries hp' (h\<lparr>lines := Some a, current := None\<rparr>) =
                 entries hp h @ [strncpy (th_info th) (th_len th)] \<and>
               (cstring (th_info th) \<longrightarrow> strncpy (th_info th) (th_len th) = th_info th))) \<and>
         (th_info th \<noteq> [] \<and> length (avail hp) < 2 \<longrightarrow>
            handlehist th h t hp = Inl OutOfMemory) \<and>
         (th_info th = [] \<longrightarrow> handlehist th h t hp = Inr (h\<lparr>current := None\<rparr>, hp, Silent))"
proof (intro conjI impI)
  assume a: "th_info th \<noteq> [] \<and> 2 \<le> length (avail hp)"
  from keep_entry [of hp h th] assms(2,3) a obtain l hp' where
    r: "hist_keep th h hp = Inr (h\<lparr>lines := Some l, current := None\<rparr>, hp', Silent)"
      "l \<notin> fmdom' (cells hp)"
      "chain hp' (h\<lparr>lines := Some l, current := None\<rparr>) = chain hp h @ [l]"
      "entries hp' (h\<lparr>lines := Some l, current := None\<rparr>) =
         entries hp h @ [strncpy (th_info th) (th_len th)]"
    by blast
  from r(2) have "l \<notin> set (chain hp h)"
    using chain_dom [of hp h] by auto
  with r(1,3,4) assms(1) show "\<exists>a hp'. handlehist th h t hp =
        Inr (h\<lparr>lines := Some a, current := None\<rparr>, hp', Silent) \<and>
      a \<notin> set (chain hp h) \<and>
      chain hp' (h\<lparr>lines := Some a, current := None\<rparr>) = chain hp h @ [a] \<and>
      entries hp' (h\<lparr>lines := Some a, current := None\<rparr>) =
        entries hp h @ [strncpy (th_info th) (th_len th)] \<and>
      (cstring (th_info th) \<longrightarrow> strncpy (th_info th) (th_len th) = th_info th)"
    by (auto simp: handlehist_def th_len_def strncpy_cstring)
next
  assume "th_info th \<noteq> [] \<and> length (avail hp) < 2"
  with assms(1) show "handlehist th h t hp = Inl OutOfMemory"
    by (simp add: handlehist_def keep_oom)
next
  assume "th_info th = []"
  with assms(1) show "handlehist th h t hp = Inr (h\<lparr>current := None\<rparr>, hp, Silent)"
    by (simp add: handlehist_def keep_empty)
qed

theorem record_appends_witness:
  "(\<exists>a hp'. handlehist (req TH_HIST_KEEP ''date'') (hist2 (Some 0)) tty5 heap2 =
        Inr (hist2 (Some 0)\<lparr>lines := Some a, current := None\<rparr>, hp', Silent) \<and>
      a \<notin> {0, 2} \<and>
      chain hp' (hist2 (Some 0)\<lparr>lines := Some a, current := None\<rparr>) = [0, 2, a] \<and>
      entries hp' (hist2 (Some 0)\<lparr>lines := Some a, current := None\<rparr>) =
        [''ls'', ''pwd'', ''date'']) \<and>
   handlehist (req TH_HIST_KEEP ''date'') (hist2 (Some 0)) tty5 (heap2\<lparr>avail := [4]\<rparr>) =
     Inl OutOfMemory \<and>
   handlehist (req TH_HIST_KEEP []) (hist2 (Some 0)) tty5 heap2 =
     Inr (hist2 None, heap2, Silent)"
proof -
  have r: "th_request (req TH_HIST_KEEP s) = TH_HIST_KEEP" for s
    by (simp add: req_def)
  have ok: "hist_ok heap2 (hist2 (Some 0))"
    by (simp add: hist2_ok)
  have "th_info (req TH_HIST_KEEP ''date'') \<noteq> [] \<and> 2 \<le> length (avail heap2)"
    by (simp add: req_def heap2_def)
  moreover have "cstring (th_info (req TH_HIST_KEEP ''date''))"
    by (simp add: req_def cstring_def)
  ultimately have "\<exists>a hp'. handlehist (req TH_HIST_KEEP ''date'') (hist2 (Some 0)) tty5 heap2 =
        Inr (hist2 (Some 0)\<lparr>lines := Some a, current := None\<rparr>, hp', Silent) \<and>
      a \<notin> {0, 2} \<and>
      chain hp' (hist2 (Some 0)\<lparr>lines := Some a, current := None\<rparr>) = [0, 2, a] \<and>
      entries hp' (hist2 (Some 0)\<lparr>lines := Some a, current := None\<rparr>) =
        [''ls'', ''pwd'', ''date'']"
    using record_appends [OF r heap2_ok ok, of "''date''" tty5]
    by (simp add: hist2_chain hist2_entries) (auto simp: req_def)
  moreover have "handlehist (req TH_HIST_KEEP ''date'') (hist2 (Some 0)) tty5
      (heap2\<lparr>avail := [4]\<rparr>) = Inl OutOfMemory"
  proof -
    have "heap_ok (heap2\<lparr>avail := [4]\<rparr>)"
      by (simp add: heap2_def heap_ok_def)
    moreover from ok have "hist_ok (heap2\<lparr>avail := [4]\<rparr>) (hist2 (Some 0))"
      by (auto simp: hist_ok_def chain_def split: option.splits)
    ultimately show ?thesis
      using record_appends [OF r, of "heap2\<lparr>avail := [4]\<rparr>" "hist2 (Some 0)" "''date''" tty5]
      by (simp add: req_def)
  qed
  moreover have "handlehist (req TH_HIST_KEEP []) (hist2 (Some 0)) tty5 heap2 =
      Inr (hist2 None, heap2, Silent)"
    using record_appends [OF r heap2_ok ok, of "[]" tty5] by (simp add: req_def hist2_def)
  ultimately show ?thesis
    by simp
qed

text \<open>
  C7 as it is stated fails on a non-empty text with a NUL byte in it: the entry that
  Record appends for the five bytes \<^verbatim>\<open>ab\0cd\<close> holds \<^verbatim>\<open>ab\<close>, not that text.
\<close>

theorem record_appends_nul:
  "hist_ok heap0 hist0 \<and> heap_ok heap0 \<and> nul_text \<noteq> [] \<and>
   handlehist (req TH_HIST_KEEP nul_text) hist0 tty5 heap0 = Inr (hist1 None, heap1, Silent) \<and>
   entries heap1 (hist1 None) = [''ab''] \<and> ''ab'' \<noteq> nul_text"
  by (simp add: hist0_ok)
     (simp add: example_defs nul_text_def hist1_def heap1_def heap_ok_def handlehist_def
       hist_keep_def malloc_def th_len_def strncpy_def entries_def chain_def)

subsection \<open>The chain under moves\<close>

lemma hist_ok_cursor:
  "hist_ok hp h \<Longrightarrow> c \<in> set (chain hp h) \<Longrightarrow> hist_ok hp (h\<lparr>current := Some c\<rparr>)"
  by (simp add: hist_ok_def chain_def)

lemma hist_ok_bottom: "hist_ok hp h \<Longrightarrow> hist_ok hp (h\<lparr>current := None\<rparr>)"
  by (simp add: hist_ok_def chain_def)

lemma cursor_cases:
  assumes "hist_ok hp h"
  shows "current h = None \<or> (\<exists>i<length (chain hp h). current h = Some (chain hp h ! i))"
  using assms by (auto simp: hist_ok_def in_set_conv_nth split: option.splits)

lemma hist_prev_frame:
  "hist_prev h hp = Inr (h', hp', fb) \<Longrightarrow> hp' = hp \<and> h' = h\<lparr>current := current h'\<rparr>"
  by (auto simp: hist_prev_def totty_def split: option.splits)

lemma hist_next_frame:
  "hist_next h hp = Inr (h', hp', fb) \<Longrightarrow> hp' = hp \<and> h' = h\<lparr>current := current h'\<rparr>"
  by (auto simp: hist_next_def totty_def split: option.splits)

lemma hist_prev_returns:
  assumes "hist_ok hp h"
  shows "\<exists>c fb. hist_prev h hp = Inr (h\<lparr>current := c\<rparr>, hp, fb) \<and> hist_ok hp (h\<lparr>current := c\<rparr>)"
proof -
  from cursor_cases [OF assms] consider "current h = None" "chain hp h = []"
    | "current h = None" "chain hp h \<noteq> []"
    | "chain hp h \<noteq> []" "current h = Some (chain hp h ! 0)"
    | i where "Suc i < length (chain hp h)" "current h = Some (chain hp h ! Suc i)"
    by (metis not0_implies_Suc less_nat_zero_code list.size(3))
  then show ?thesis
  proof cases
    case 1
    with prev_empty [OF assms] have "hist_prev h hp = Inr (h\<lparr>current := None\<rparr>, hp, Beep)"
      by simp
    with assms show ?thesis
      by (blast intro: hist_ok_bottom)
  next
    case 2
    from assms 2(2) have "hist_ok hp (h\<lparr>current := Some (last (chain hp h))\<rparr>)"
      by (simp add: hist_ok_cursor)
    with prev_bottom [OF assms 2] show ?thesis
      by blast
  next
    case 3
    with prev_oldest [OF assms] have
      "hist_prev h hp = Inr (h\<lparr>current := Some (chain hp h ! 0)\<rparr>, hp, Silent)"
      by (simp add: hd_conv_nth)
    moreover from assms 3(1) have "hist_ok hp (h\<lparr>current := Some (chain hp h ! 0)\<rparr>)"
      by (simp add: hist_ok_cursor)
    ultimately show ?thesis
      by blast
  next
    case 4
    from assms 4(1) have "hist_ok hp (h\<lparr>current := Some (chain hp h ! i)\<rparr>)"
      by (simp add: hist_ok_cursor)
    with prev_entry [OF assms 4] show ?thesis
      by blast
  qed
qed

lemma hist_next_returns:
  assumes "hist_ok hp h"
  shows "\<exists>c fb. hist_next h hp = Inr (h\<lparr>current := c\<rparr>, hp, fb) \<and> hist_ok hp (h\<lparr>current := c\<rparr>)"
proof -
  from cursor_cases [OF assms] consider "current h = None"
    | "chain hp h \<noteq> []" "current h = Some (last (chain hp h))"
    | i where "Suc i < length (chain hp h)" "current h = Some (chain hp h ! i)"
    by (metis Suc_lessI last_conv_nth diff_Suc_1 less_nat_zero_code list.size(3))
  then show ?thesis
  proof cases
    case 1
    then have "hist_next h hp = Inr (h\<lparr>current := None\<rparr>, hp, Beep)"
      by (simp add: next_bottom)
    with assms show ?thesis
      by (blast intro: hist_ok_bottom)
  next
    case 2
    with next_newest [OF assms] assms show ?thesis
      by (blast intro: hist_ok_bottom)
  next
    case 3
    from assms 3(1) have "hist_ok hp (h\<lparr>current := Some (chain hp h ! Suc i)\<rparr>)"
      by (simp add: hist_ok_cursor)
    with next_entry [OF assms 3] show ?thesis
      by blast
  qed
qed

text \<open>
  C10. StepOlder and StepNewer never change the chain. Whatever the history and the
  store of lines are, when the request returns, the store of lines is the one it was
  given, the history differs from the one it was given in \<open>current\<close> at most, and
  chain and texts are the same. On a history that is in order the request does return.
\<close>

theorem step_keeps_chain:
  assumes "th_request th = TH_HIST_PREV \<or> th_request th = TH_HIST_NEXT"
  shows "(\<forall>h' hp' fb. handlehist th h t hp = Inr (h', hp', fb) \<longrightarrow>
            hp' = hp \<and> h' = h\<lparr>current := current h'\<rparr> \<and>
            chain hp' h' = chain hp h \<and> entries hp' h' = entries hp h) \<and>
         (hist_ok hp h \<longrightarrow> (\<exists>c fb. handlehist th h t hp = Inr (h\<lparr>current := c\<rparr>, hp, fb)))"
proof (intro conjI allI impI)
  fix h' hp' fb
  assume "handlehist th h t hp = Inr (h', hp', fb)"
  with assms have r: "hp' = hp \<and> h' = h\<lparr>current := current h'\<rparr>"
    by (auto simp: handlehist_def dest: hist_prev_frame hist_next_frame)
  then have "lines h' = lines h"
    by (metis hist.select_convs(3) hist.surjective hist.update_convs(4))
  with r show "hp' = hp" "h' = h\<lparr>current := current h'\<rparr>" "chain hp' h' = chain hp h"
    "entries hp' h' = entries hp h"
    by (simp_all add: chain_def entries_def)
next
  assume "hist_ok hp h"
  with assms show "\<exists>c fb. handlehist th h t hp = Inr (h\<lparr>current := c\<rparr>, hp, fb)"
    using hist_prev_returns [of hp h] hist_next_returns [of hp h]
    by (auto simp: handlehist_def)
qed

theorem step_keeps_chain_witness:
  "(\<exists>c fb. handlehist (req TH_HIST_PREV []) (hist2 (Some 2)) tty5 heap2 =
      Inr (hist2 (Some 2)\<lparr>current := c\<rparr>, heap2, fb)) \<and>
   (\<exists>c fb. handlehist (req TH_HIST_NEXT []) (hist2 (Some 2)) tty5 heap2 =
      Inr (hist2 (Some 2)\<lparr>current := c\<rparr>, heap2, fb)) \<and>
   chain heap2 (hist2 None) = chain heap2 (hist2 (Some 2)) \<and>
   entries heap2 (hist2 None) = entries heap2 (hist2 (Some 2))"
proof -
  have ok: "hist_ok heap2 (hist2 (Some 2))"
    by (simp add: hist2_ok)
  have p: "th_request (req TH_HIST_PREV []) = TH_HIST_PREV \<or>
      th_request (req TH_HIST_PREV []) = TH_HIST_NEXT"
    by (simp add: req_def)
  have n: "th_request (req TH_HIST_NEXT []) = TH_HIST_PREV \<or>
      th_request (req TH_HIST_NEXT []) = TH_HIST_NEXT"
    by (simp add: req_def)
  have "handlehist (req TH_HIST_NEXT []) (hist2 (Some 2)) tty5 heap2 =
      Inr (hist2 None, heap2, Input [])"
    by (simp add: example_defs handlehist_def hist_next_def totty_def)
  with step_keeps_chain [OF n, of "hist2 (Some 2)" tty5 heap2]
  have "chain heap2 (hist2 None) = chain heap2 (hist2 (Some 2)) \<and>
      entries heap2 (hist2 None) = entries heap2 (hist2 (Some 2))"
    by blast
  with step_keeps_chain [OF p, of "hist2 (Some 2)" tty5 heap2]
    step_keeps_chain [OF n, of "hist2 (Some 2)" tty5 heap2] ok
  show ?thesis
    by blast
qed

text \<open>
  C6, amended. On a history that is in order, with \<open>current\<close> at the bottom and a chain
  that is not empty, StepOlder and then StepNewer give back the history as it was,
  \<open>current\<close> at the bottom, and the second step puts the empty line into the
  terminal's input.
\<close>

theorem older_then_newer:
  assumes "th_request th1 = TH_HIST_PREV" and "th_request th2 = TH_HIST_NEXT"
    and "hist_ok hp h" and "current h = None" and "chain hp h \<noteq> []"
  shows "\<exists>h1. handlehist th1 h t hp = Inr (h1, hp, Input (last (entries hp h))) \<and>
           handlehist th2 h1 t hp = Inr (h, hp, Input []) \<and> current h = None"
proof -
  let ?h1 = "h\<lparr>current := Some (last (chain hp h))\<rparr>"
  from assms(3,5) have ok1: "hist_ok hp ?h1"
    by (simp add: hist_ok_cursor)
  have c1: "chain hp ?h1 = chain hp h"
    by (simp add: chain_def)
  from assms(4) have "?h1\<lparr>current := None\<rparr> = h"
    by (cases h) simp
  with next_newest [OF ok1] assms(5) c1 have "hist_next ?h1 hp = Inr (h, hp, Input [])"
    by simp
  with prev_bottom [OF assms(3,4,5)] assms(1,2,4) show ?thesis
    by (simp add: handlehist_def)
qed

theorem older_then_newer_witness:
  "\<exists>h1. handlehist (req TH_HIST_PREV []) (hist2 None) tty5 heap2 =
          Inr (h1, heap2, Input ''pwd'') \<and>
        handlehist (req TH_HIST_NEXT []) h1 tty5 heap2 = Inr (hist2 None, heap2, Input []) \<and>
        current (hist2 None) = None"
proof -
  have "th_request (req TH_HIST_PREV []) = TH_HIST_PREV"
    and "th_request (req TH_HIST_NEXT []) = TH_HIST_NEXT"
    by (simp_all add: req_def)
  moreover have "hist_ok heap2 (hist2 None)"
    by (simp add: hist2_ok)
  moreover have "current (hist2 None) = None"
    by (simp add: hist2_def)
  moreover have "chain heap2 (hist2 None) \<noteq> []"
    by (simp add: hist2_chain)
  ultimately show ?thesis
    using older_then_newer [of "req TH_HIST_PREV []" "req TH_HIST_NEXT []" heap2 "hist2 None" tty5]
    by (simp add: hist2_entries)
qed

text \<open>
  C6 as it is stated fails on a history with an empty chain: there StepOlder beeps and
  leaves \<open>current\<close> at the bottom, and StepNewer at the bottom beeps too, so the second
  step does not put the empty line into the input.
\<close>

theorem older_then_newer_empty:
  "hist_ok heap0 hist0 \<and> current hist0 = None \<and>
   handlehist (req TH_HIST_PREV []) hist0 tty5 heap0 = Inr (hist0, heap0, Beep) \<and>
   handlehist (req TH_HIST_NEXT []) hist0 tty5 heap0 = Inr (hist0, heap0, Beep) \<and>
   Beep \<noteq> Input []"
  by (simp add: hist0_ok)
     (simp add: example_defs handlehist_def hist_prev_def hist_next_def)

subsection \<open>Lines come back in reverse order\<close>

lemma hist_ok_fresh: "lines h = None \<Longrightarrow> current h = None \<Longrightarrow> hist_ok hp h"
  by (simp add: hist_ok_def)

lemma entries_fresh: "lines h = None \<Longrightarrow> entries hp h = []"
  by (simp add: entries_def chain_def)

lemma chain_current: "chain hp (h\<lparr>current := c\<rparr>) = chain hp h"
  by (simp add: chain_def)

lemma entries_current: "entries hp (h\<lparr>current := c\<rparr>) = entries hp h"
  by (simp add: entries_def chain_def)

lemma run_keep:
  assumes "heap_ok hp" and "hist_ok hp h" and "current h = None"
    and "\<forall>th\<in>set ths. th_request th = TH_HIST_KEEP \<and> th_info th \<noteq> []"
    and "2 * length ths \<le> length (avail hp)"
  shows "\<exists>h' hp'. run ths h t hp = Inr (h', hp', replicate (length ths) Silent) \<and>
           heap_ok hp' \<and> hist_ok hp' h' \<and> current h' = None \<and>
           entries hp' h' = entries hp h @ map (\<lambda>th. strncpy (th_info th) (th_len th)) ths"
  using assms
proof (induction ths arbitrary: h hp)
  case Nil
  then show ?case by simp
next
  case (Cons th ths)
  from Cons.prems have th: "th_request th = TH_HIST_KEEP" "th_info th \<noteq> []"
    and av: "2 \<le> length (avail hp)"
    by simp_all
  from keep_entry [OF Cons.prems(1,2) th(2) av] obtain l hp1 where
    r: "hist_keep th h hp = Inr (h\<lparr>lines := Some l, current := None\<rparr>, hp1, Silent)"
      "heap_ok hp1" "avail hp1 = drop 2 (avail hp)"
      "hist_ok hp1 (h\<lparr>lines := Some l, current := None\<rparr>)"
      "entries hp1 (h\<lparr>lines := Some l, current := None\<rparr>) =
         entries hp h @ [strncpy (th_info th) (th_len th)]"
    by blast
  let ?h1 = "h\<lparr>lines := Some l, current := None\<rparr>"
  from Cons.prems(5) r(3) have "2 * length ths \<le> length (avail hp1)"
    by simp
  moreover from Cons.prems(4) have
    "\<forall>th\<in>set ths. th_request th = TH_HIST_KEEP \<and> th_info th \<noteq> []"
    by simp
  moreover have "current ?h1 = None"
    by simp
  ultimately obtain h' hp' where
    "run ths ?h1 t hp1 = Inr (h', hp', replicate (length ths) Silent)" "heap_ok hp'"
    "hist_ok hp' h'" "current h' = None"
    "entries hp' h' = entries hp1 ?h1 @ map (\<lambda>th. strncpy (th_info th) (th_len th)) ths"
    using Cons.IH [OF r(2,4)] by blast
  with r(1,5) th(1) show ?case
    by (simp add: handlehist_def)
qed

lemma run_prev:
  assumes "hist_ok hp h" and "i < length (chain hp h)" and "current h = Some (chain hp h ! i)"
    and "\<forall>th\<in>set ths. th_request th = TH_HIST_PREV" and "length ths = i"
  shows "run ths h t hp =
           Inr (h\<lparr>current := Some (hd (chain hp h))\<rparr>, hp,
                map Input (rev (take i (entries hp h))))"
  using assms
proof (induction i arbitrary: h ths)
  case 0
  then have "h\<lparr>current := Some (hd (chain hp h))\<rparr> = h"
    by (cases h) (simp add: hd_conv_nth)
  with 0 show ?case
    by simp
next
  case (Suc j)
  from Suc.prems(5) obtain th ths' where ths: "ths = th # ths'" "length ths' = j"
    by (cases ths) auto
  let ?h1 = "h\<lparr>current := Some (chain hp h ! j)\<rparr>"
  from Suc.prems(2) have j: "j < length (chain hp h)"
    by simp
  from prev_entry [OF Suc.prems(1,2,3)] have
    p: "hist_prev h hp = Inr (?h1, hp, Input (entries hp h ! j))" .
  have c: "chain hp ?h1 = chain hp h" and e: "entries hp ?h1 = entries hp h"
    by (simp_all add: chain_def entries_def)
  from Suc.prems(1) j have "hist_ok hp ?h1"
    by (simp add: hist_ok_cursor)
  moreover from Suc.prems(4) ths have "\<forall>th\<in>set ths'. th_request th = TH_HIST_PREV"
    by simp
  ultimately have "run ths' ?h1 t hp =
      Inr (?h1\<lparr>current := Some (hd (chain hp ?h1))\<rparr>, hp,
           map Input (rev (take j (entries hp ?h1))))"
    using j ths(2) by (intro Suc.IH) (simp_all add: c)
  moreover from j have "take (Suc j) (entries hp h) = take j (entries hp h) @ [entries hp h ! j]"
    by (simp add: take_Suc_conv_app_nth entries_def)
  ultimately show ?case
    using p ths Suc.prems(4) by (simp add: handlehist_def c e)
qed

lemma run_prev_bottom:
  assumes "hist_ok hp h" and "current h = None" and "chain hp h \<noteq> []"
    and "\<forall>th\<in>set ths. th_request th = TH_HIST_PREV" and "length ths = length (chain hp h)"
  shows "run ths h t hp =
           Inr (h\<lparr>current := Some (hd (chain hp h))\<rparr>, hp, map Input (rev (entries hp h)))"
proof -
  let ?n = "length (chain hp h)"
  from assms(3,5) obtain th ths' where ths: "ths = th # ths'" "length ths' = ?n - 1"
    by (cases ths) auto
  let ?h1 = "h\<lparr>current := Some (last (chain hp h))\<rparr>"
  have c: "chain hp ?h1 = chain hp h" and e: "entries hp ?h1 = entries hp h"
    by (simp_all add: chain_def entries_def)
  from assms(3) have n: "?n - 1 < ?n" and l: "last (chain hp h) = chain hp h ! (?n - 1)"
    by (simp_all add: last_conv_nth)
  from assms(1,3) have "hist_ok hp ?h1"
    by (simp add: hist_ok_cursor)
  moreover from assms(4) ths have "\<forall>th\<in>set ths'. th_request th = TH_HIST_PREV"
    by simp
  ultimately have run: "run ths' ?h1 t hp =
      Inr (?h1\<lparr>current := Some (hd (chain hp ?h1))\<rparr>, hp,
           map Input (rev (take (?n - 1) (entries hp ?h1))))"
    using n l ths(2) by (intro run_prev) (simp_all add: chain_current)
  have "length (entries hp h) = ?n"
    by (simp add: entries_def)
  with assms(3) have sp: "entries hp h = take (?n - 1) (entries hp h) @ [last (entries hp h)]"
    by (metis append_butlast_last_id butlast_conv_take length_0_conv)
  have out: "map Input (rev (entries hp h)) =
      Input (last (entries hp h)) # map Input (rev (take (?n - 1) (entries hp h)))"
    by (subst sp) simp
  from run show ?thesis
    using prev_bottom [OF assms(1,2,3)] ths assms(4) by (simp add: handlehist_def c e out)
qed

text \<open>
  C1, amended. On a fresh history (no line, \<open>current\<close> at the bottom) the requests
  Record(L1), ..., Record(Ln), each with a non-empty text without NUL byte, are all
  answered silently (given memory for the n nodes and their text buffers), and the n
  requests StepOlder after them put Ln, ..., L1 into the terminal's input, in that
  order. At the end the chain holds L1, ..., Ln and \<open>current\<close> is on its oldest
  entry, the one that holds L1.
\<close>

theorem chronological_order:
  assumes "heap_ok hp" and "lines h = None" and "current h = None"
    and "\<forall>th\<in>set recs. th_request th = TH_HIST_KEEP \<and> th_info th \<noteq> [] \<and> cstring (th_info th)"
    and "\<forall>th\<in>set olds. th_request th = TH_HIST_PREV" and "length olds = length recs"
    and "2 * length recs \<le> length (avail hp)"
  shows "\<exists>h1 hp1 h2. run recs h t hp = Inr (h1, hp1, replicate (length recs) Silent) \<and>
           run olds h1 t hp1 = Inr (h2, hp1, map Input (rev (map th_info recs))) \<and>
           entries hp1 h2 = map th_info recs \<and>
           (recs \<noteq> [] \<longrightarrow> current h2 = Some (hd (chain hp1 h2)))"
proof -
  from assms(2,3) have ok: "hist_ok hp h"
    by (rule hist_ok_fresh)
  from assms(4) have "\<forall>th\<in>set recs. th_request th = TH_HIST_KEEP \<and> th_info th \<noteq> []"
    by simp
  from run_keep [OF assms(1) ok assms(3) this assms(7), of t] obtain h1 hp1 where
    r: "run recs h t hp = Inr (h1, hp1, replicate (length recs) Silent)" "hist_ok hp1 h1"
      "current h1 = None"
      "entries hp1 h1 = entries hp h @ map (\<lambda>th. strncpy (th_info th) (th_len th)) recs"
    by blast
  from assms(4) have "map (\<lambda>th. strncpy (th_info th) (th_len th)) recs = map th_info recs"
    by (simp add: th_len_def strncpy_cstring)
  with r(4) assms(2) have e: "entries hp1 h1 = map th_info recs"
    by (simp add: entries_fresh)
  show ?thesis
  proof (cases "recs = []")
    case True
    with r e assms(6) show ?thesis
      by simp
  next
    case False
    let ?h2 = "h1\<lparr>current := Some (hd (chain hp1 h1))\<rparr>"
    have c: "chain hp1 ?h2 = chain hp1 h1" and e2: "entries hp1 ?h2 = entries hp1 h1"
      by (simp_all add: chain_def entries_def)
    from e have len: "length (chain hp1 h1) = length recs"
      by (metis entries_def length_map)
    with False have "chain hp1 h1 \<noteq> []"
      by auto
    from run_prev_bottom [OF r(2,3) this assms(5), of t] len assms(6)
    have "run olds h1 t hp1 = Inr (?h2, hp1, map Input (rev (entries hp1 h1)))"
      by simp
    with r(1) e c e2 show ?thesis
      by (intro exI [of _ h1] exI [of _ hp1] exI [of _ ?h2]) simp
  qed
qed

theorem chronological_order_witness:
  "\<exists>h1 hp1 h2.
     run [req TH_HIST_KEEP ''ls'', req TH_HIST_KEEP ''pwd''] hist0 tty5 heap0 =
       Inr (h1, hp1, [Silent, Silent]) \<and>
     run [req TH_HIST_PREV [], req TH_HIST_PREV []] h1 tty5 hp1 =
       Inr (h2, hp1, [Input ''pwd'', Input ''ls'']) \<and>
     entries hp1 h2 = [''ls'', ''pwd''] \<and> current h2 = Some (hd (chain hp1 h2))"
proof -
  have "heap_ok heap0" and "lines hist0 = None" and "current hist0 = None"
    and "2 * length [req TH_HIST_KEEP ''ls'', req TH_HIST_KEEP ''pwd''] \<le> length (avail heap0)"
    by (simp_all add: heap0_def hist0_def heap_ok_def)
  moreover have "\<forall>th\<in>set [req TH_HIST_KEEP ''ls'', req TH_HIST_KEEP ''pwd''].
      th_request th = TH_HIST_KEEP \<and> th_info th \<noteq> [] \<and> cstring (th_info th)"
    by (simp add: req_def cstring_def)
  moreover have "\<forall>th\<in>set [req TH_HIST_PREV [], req TH_HIST_PREV []]. th_request th = TH_HIST_PREV"
    and "length [req TH_HIST_PREV [], req TH_HIST_PREV []] =
      length [req TH_HIST_KEEP ''ls'', req TH_HIST_KEEP ''pwd'']"
    by (simp_all add: req_def)
  ultimately show ?thesis
    using chronological_order [of heap0 hist0 "[req TH_HIST_KEEP ''ls'', req TH_HIST_KEEP ''pwd'']"
        "[req TH_HIST_PREV [], req TH_HIST_PREV []]" tty5]
    by (simp add: req_def)
qed

text \<open>
  C1 as it is stated fails on a non-empty text with a NUL byte in it: after Record
  of the five bytes \<^verbatim>\<open>ab\0cd\<close> on the fresh history, StepOlder puts \<^verbatim>\<open>ab\<close> into the
  terminal's input, not that text.
\<close>

theorem chronological_order_nul:
  "heap_ok heap0 \<and> lines hist0 = None \<and> current hist0 = None \<and> nul_text \<noteq> [] \<and>
   run [req TH_HIST_KEEP nul_text] hist0 tty5 heap0 = Inr (hist1 None, heap1, [Silent]) \<and>
   run [req TH_HIST_PREV []] (hist1 None) tty5 heap1 =
     Inr (hist1 (Some 0), heap1, [Input ''ab'']) \<and>
   [Input ''ab''] \<noteq> [Input nul_text]"
  by (simp add: example_defs nul_text_def hist1_def heap1_def heap_ok_def handlehist_def
      hist_keep_def hist_prev_def totty_def malloc_def th_len_def strncpy_def)

subsection \<open>Cleaning up\<close>

lemma hist_ok_cells: "cells hp' = cells hp \<Longrightarrow> hist_ok hp' h = hist_ok hp h"
  by (auto simp: hist_ok_def chain_def split: option.splits)

lemma chain_cells: "cells hp' = cells hp \<Longrightarrow> chain hp' h = chain hp h"
  by (simp add: chain_def)

lemma distinct_concat_disjoint:
  "distinct (concat (map f xs)) \<Longrightarrow> x \<in> set xs \<Longrightarrow> y \<in> set xs \<Longrightarrow> x \<noteq> y \<Longrightarrow>
     set (f x) \<inter> set (f y) = {}"
  by (induction xs) auto

lemma distinct_concat_filter:
  "distinct (concat (map f xs)) \<Longrightarrow> distinct (concat (map f (filter P xs)))"
  by (induction xs) auto

lemma cleanup_sweep:
  assumes "list_all (hist_ok hp) hists" and "distinct (concat (map (chain hp) hists))"
  shows "cleanup kill hists hp =
           Inr (filter (\<lambda>h. kill (pid h) \<noteq> Some ESRCH) hists,
                hp\<lparr>cells := fmdrop_set
                  (set (concat (map (chain hp) (filter (\<lambda>h. kill (pid h) = Some ESRCH) hists))))
                  (cells hp)\<rparr>)"
  using assms
proof (induction hists arbitrary: hp)
  case Nil
  then show ?case by simp
next
  case (Cons h hs)
  from Cons.prems have ok: "hist_ok hp h" "list_all (hist_ok hp) hs"
    and di: "distinct (concat (map (chain hp) hs))"
    and dj: "set (chain hp h) \<inter> (\<Union>g\<in>set hs. set (chain hp g)) = {}"
    by auto
  show ?case
  proof (cases "kill (pid h) = Some ESRCH")
    case False
    with Cons.IH [OF ok(2) di] show ?thesis
      by simp
  next
    case True
    let ?dead = "filter (\<lambda>h. kill (pid h) = Some ESRCH) hs"
    let ?m = "fmdrop_set (set (chain hp h)) (cells hp)"
    let ?hp1 = "hp\<lparr>cells := ?m\<rparr>"
    from ok(1) have fr: "freelines (lines h) (cells hp) = Inr ?m"
      using freelines_walk [OF _ walk_distinct, of "cells hp" None "lines h"]
      by (simp add: hist_ok_def chain_def)
    have keep: "hist_ok ?hp1 g \<and> chain ?hp1 g = chain hp g" if "g \<in> set hs" for g
    proof -
      from that ok(2) have "hist_ok hp g"
        by (simp add: list_all_iff)
      moreover from that dj have
        "\<forall>a\<in>set (chain hp g). fmlookup (cells ?hp1) a = fmlookup (cells hp) a"
        by auto
      ultimately show ?thesis
        using hist_frame [of hp g ?hp1] by simp
    qed
    then have ok1: "list_all (hist_ok ?hp1) hs"
      and ch1: "map (chain ?hp1) hs = map (chain hp) hs"
      and ch2: "map (chain ?hp1) ?dead = map (chain hp) ?dead"
      by (simp_all add: list_all_iff)
    from di have "distinct (concat (map (chain ?hp1) hs))"
      by (simp only: ch1)
    from Cons.IH [OF ok1 this] have "cleanup kill hs ?hp1 =
        Inr (filter (\<lambda>h. kill (pid h) \<noteq> Some ESRCH) hs,
             hp\<lparr>cells := fmdrop_set (set (concat (map (chain hp) ?dead)) \<union> set (chain hp h))
               (cells hp)\<rparr>)"
      by (simp only: ch2) simp
    with True fr show ?thesis
      by (simp add: Un_commute)
  qed
qed

lemma sweep_alive:
  assumes "store_ok hists hp" and "g \<in> set hists" and "kill (pid g) \<noteq> Some ESRCH"
    and "cells hp' = fmdrop_set
      (set (concat (map (chain hp) (filter (\<lambda>h. kill (pid h) = Some ESRCH) hists)))) (cells hp)"
  shows "hist_ok hp' g \<and> chain hp' g = chain hp g \<and> entries hp' g = entries hp g \<and>
         (\<forall>a\<in>set (chain hp g). fmlookup (cells hp') a = fmlookup (cells hp) a)"
proof -
  from assms(1) have di: "distinct (concat (map (chain hp) hists))"
    and ok: "hist_ok hp g"
    using assms(2) by (simp_all add: store_ok_def list_all_iff)
  have "a \<notin> set (chain hp d)"
    if "a \<in> set (chain hp g)" "d \<in> set hists" "kill (pid d) = Some ESRCH" for a d
  proof -
    from that(3) assms(3) have "g \<noteq> d"
      by auto
    from distinct_concat_disjoint [OF di assms(2) that(2) this] that(1) show ?thesis
      by auto
  qed
  then have same: "\<forall>a\<in>set (chain hp g). fmlookup (cells hp') a = fmlookup (cells hp) a"
    by (auto simp: assms(4))
  with hist_frame [OF ok, of hp'] show ?thesis
    by simp
qed

lemma cleanup_ok:
  assumes "store_ok hists hp" and "cleanup kill hists hp = Inr (hists', hp')"
  shows "store_ok hists' hp'"
proof -
  let ?dead = "filter (\<lambda>h. kill (pid h) = Some ESRCH) hists"
  let ?live = "filter (\<lambda>h. kill (pid h) \<noteq> Some ESRCH) hists"
  from assms(1) have "list_all (hist_ok hp) hists" "distinct (concat (map (chain hp) hists))"
    by (simp_all add: store_ok_def)
  from cleanup_sweep [OF this, of kill] assms(2) have
    r: "hists' = ?live"
      "hp' = hp\<lparr>cells := fmdrop_set (set (concat (map (chain hp) ?dead))) (cells hp)\<rparr>"
    by simp_all
  from r(2) have c: "cells hp' =
      fmdrop_set (set (concat (map (chain hp) ?dead))) (cells hp)"
    by simp
  have live: "hist_ok hp' g \<and> chain hp' g = chain hp g" if "g \<in> set ?live" for g
    using sweep_alive [OF assms(1) _ _ c, of g] that by simp
  then have "map (chain hp') ?live = map (chain hp) ?live"
    by simp
  moreover from assms(1) have "distinct (concat (map (chain hp) ?live))"
    by (simp add: store_ok_def distinct_concat_filter)
  ultimately have "distinct (concat (map (chain hp') ?live))"
    by (simp only:)
  moreover from assms(1) r(2) have "heap_ok hp'"
    by (auto simp: store_ok_def heap_ok_def)
  moreover from live have "list_all (hist_ok hp') ?live"
    by (simp add: list_all_iff)
  ultimately show ?thesis
    by (simp add: store_ok_def r(1))
qed

text \<open>
  C8. One sweep of \<^verbatim>\<open>cleanup\<close> over a store that is in order returns, and keeps
  exactly the histories whose process \<^verbatim>\<open>kill\<close> does not report as \<^verbatim>\<open>ESRCH\<close>, in
  their order and as they were (so with \<open>lines\<close> and \<open>current\<close> as they were). No
  node of the chain of a removed history is allocated any more. The chain of every
  history that is kept is the same, with the same texts, and each of its nodes is as
  it was. This holds whatever else \<^verbatim>\<open>kill\<close> reports: success, \<^verbatim>\<open>EPERM\<close> or another
  error.
\<close>

theorem reaper_sweep:
  assumes "store_ok hists hp"
  shows "\<exists>hp'. cleanup kill hists hp =
             Inr (filter (\<lambda>h. kill (pid h) \<noteq> Some ESRCH) hists, hp') \<and>
           (\<forall>h\<in>set hists. kill (pid h) = Some ESRCH \<longrightarrow>
              set (chain hp h) \<inter> fmdom' (cells hp') = {}) \<and>
           (\<forall>h\<in>set hists. kill (pid h) \<noteq> Some ESRCH \<longrightarrow>
              chain hp' h = chain hp h \<and> entries hp' h = entries hp h \<and>
              (\<forall>a\<in>set (chain hp h). fmlookup (cells hp') a = fmlookup (cells hp) a))"
proof -
  let ?dead = "filter (\<lambda>h. kill (pid h) = Some ESRCH) hists"
  let ?hp' = "hp\<lparr>cells := fmdrop_set (set (concat (map (chain hp) ?dead))) (cells hp)\<rparr>"
  from assms have "list_all (hist_ok hp) hists" "distinct (concat (map (chain hp) hists))"
    by (simp_all add: store_ok_def)
  then have "cleanup kill hists hp =
      Inr (filter (\<lambda>h. kill (pid h) \<noteq> Some ESRCH) hists, ?hp')"
    by (rule cleanup_sweep)
  moreover have "\<forall>h\<in>set hists. kill (pid h) = Some ESRCH \<longrightarrow>
      set (chain hp h) \<inter> fmdom' (cells ?hp') = {}"
    by auto
  moreover have "\<forall>h\<in>set hists. kill (pid h) \<noteq> Some ESRCH \<longrightarrow>
      chain ?hp' h = chain hp h \<and> entries ?hp' h = entries hp h \<and>
      (\<forall>a\<in>set (chain hp h). fmlookup (cells ?hp') a = fmlookup (cells hp) a)"
    using sweep_alive [OF assms, of _ kill ?hp'] by simp
  ultimately show ?thesis
    by blast
qed

lemma store3_ok: "store_ok [hist3, hist2 (Some 0)] heap3"
  by (simp add: store_ok_def heap_ok_def hist_ok_def chain_def hist3_def heap3_def hist2_def
      heap2_def)

theorem reaper_sweep_witness:
  "\<exists>hp'. cleanup gone100 [hist3, hist2 (Some 0)] heap3 = Inr ([hist3], hp') \<and>
      {0, 2} \<inter> fmdom' (cells hp') = {} \<and>
      chain hp' hist3 = [4] \<and> entries hp' hist3 = [''date''] \<and>
      fmlookup (cells hp') 4 = Some \<lparr>prev = None, text' = ''date'', next' = None\<rparr>"
proof -
  have c2: "chain heap3 (hist2 (Some 0)) = [0, 2]" and c3: "chain heap3 hist3 = [4]"
    by (simp_all add: chain_def heap3_def heap2_def hist2_def hist3_def)
  have e3: "entries heap3 hist3 = [''date'']"
    by (simp add: entries_def c3) (simp add: heap3_def)
  have l4: "fmlookup (cells heap3) 4 = Some \<lparr>prev = None, text' = ''date'', next' = None\<rparr>"
    by (simp add: heap3_def)
  have p: "pid hist3 = 200" "pid (hist2 (Some 0)) = 100"
    by (simp_all add: hist3_def hist2_def)
  from reaper_sweep [OF store3_ok, of gone100] show ?thesis
    by (simp add: c2 c3 e3 l4 p gone100_def)
qed

subsection \<open>The store stays in order\<close>

lemma store_ok_update:
  assumes so: "store_ok hists hp" and i: "i < length hists" and hk: "heap_ok hp'"
    and ok': "hist_ok hp' h'"
    and sub: "set (chain hp' h') \<subseteq> set (chain hp (hists ! i)) \<union> N"
    and fresh: "N \<inter> fmdom' (cells hp) = {}"
    and frame: "\<forall>a\<in>fmdom' (cells hp) - set (chain hp (hists ! i)).
      fmlookup (cells hp') a = fmlookup (cells hp) a"
  shows "store_ok (hists[i := h']) hp'"
proof -
  let ?xs = "take i hists" and ?ys = "drop (Suc i) hists" and ?h = "hists ! i"
  from i have sp: "hists = ?xs @ ?h # ?ys" and up: "hists[i := h'] = ?xs @ h' # ?ys"
    by (simp_all add: id_take_nth_drop [symmetric] upd_conv_take_nth_drop)
  from so have "distinct (concat (map (chain hp) hists))"
    by (simp add: store_ok_def)
  then have "distinct (concat (map (chain hp) (?xs @ ?h # ?ys)))"
    by (simp only: sp [symmetric])
  then have dx: "distinct (concat (map (chain hp) ?xs))"
    and dy: "distinct (concat (map (chain hp) ?ys))"
    and xy: "(\<Union>g\<in>set ?xs. set (chain hp g)) \<inter> (\<Union>g\<in>set ?ys. set (chain hp g)) = {}"
    and hx: "set (chain hp ?h) \<inter> (\<Union>g\<in>set ?xs. set (chain hp g)) = {}"
    and hy: "set (chain hp ?h) \<inter> (\<Union>g\<in>set ?ys. set (chain hp g)) = {}"
    by auto
  have others: "hist_ok hp' g \<and> chain hp' g = chain hp g" if "g \<in> set ?xs \<union> set ?ys" for g
  proof -
    from that have "g \<in> set hists"
      by (auto dest: in_set_takeD in_set_dropD)
    with so have "hist_ok hp g"
      by (simp add: store_ok_def list_all_iff)
    moreover have "fmlookup (cells hp') a = fmlookup (cells hp) a" if "a \<in> set (chain hp g)" for a
    proof -
      from that have "a \<in> fmdom' (cells hp)"
        using chain_dom [of hp g] by auto
      moreover from that \<open>g \<in> set ?xs \<union> set ?ys\<close> hx hy have "a \<notin> set (chain hp ?h)"
        by auto
      ultimately show ?thesis
        using frame by simp
    qed
    ultimately show ?thesis
      using hist_frame [of hp g hp'] by simp
  qed
  then have mx: "map (chain hp') ?xs = map (chain hp) ?xs"
    and my: "map (chain hp') ?ys = map (chain hp) ?ys"
    by simp_all
  have nx: "N \<inter> (\<Union>g\<in>set ?xs. set (chain hp g)) = {}"
    and ny: "N \<inter> (\<Union>g\<in>set ?ys. set (chain hp g)) = {}"
    using fresh chain_dom [of hp] by blast+
  from sub hx nx have "set (chain hp' h') \<inter> (\<Union>g\<in>set ?xs. set (chain hp g)) = {}"
    by blast
  moreover from sub hy ny have "set (chain hp' h') \<inter> (\<Union>g\<in>set ?ys. set (chain hp g)) = {}"
    by blast
  ultimately have "distinct (concat (map (chain hp) ?xs) @ chain hp' h' @
      concat (map (chain hp) ?ys))"
    using dx dy xy chain_distinct [of hp' h'] by auto
  then have "distinct (concat (map (chain hp') (?xs @ h' # ?ys)))"
    by (simp only: map_append list.map concat_append concat.simps mx my)
  moreover from others ok' have "list_all (hist_ok hp') (?xs @ h' # ?ys)"
    by (simp add: list_all_iff)
  ultimately show ?thesis
    using hk by (simp only: up store_ok_def)
qed

lemma hist_keep_ok:
  assumes "heap_ok hp" and "hist_ok hp h" and "hist_keep th h hp = Inr (h', hp', fb)"
  shows "heap_ok hp' \<and> hist_ok hp' h' \<and>
         (\<exists>N. set (chain hp' h') \<subseteq> set (chain hp h) \<union> N \<and> N \<inter> fmdom' (cells hp) = {}) \<and>
         (\<forall>a\<in>fmdom' (cells hp) - set (chain hp h). fmlookup (cells hp') a = fmlookup (cells hp) a)"
proof (cases "th_info th = []")
  case True
  with assms(3) have "h' = h\<lparr>current := None\<rparr>" "hp' = hp"
    by (simp_all add: keep_empty)
  with assms(1,2) show ?thesis
    by (auto simp: hist_ok_bottom chain_current)
next
  case False
  with assms(3) have "2 \<le> length (avail hp)"
    using keep_oom [of th hp h] by (cases "length (avail hp) < 2") auto
  from keep_entry [OF assms(1,2) False this] assms(3) obtain l where
    r: "h' = h\<lparr>lines := Some l, current := None\<rparr>" "l \<notin> fmdom' (cells hp)" "heap_ok hp'"
      "hist_ok hp' h'" "chain hp' h' = chain hp h @ [l]"
      "\<forall>a. a \<noteq> l \<longrightarrow> Some a \<noteq> lines h \<longrightarrow> fmlookup (cells hp') a = fmlookup (cells hp) a"
    by auto
  have "fmlookup (cells hp') a = fmlookup (cells hp) a"
    if "a \<in> fmdom' (cells hp)" "a \<notin> set (chain hp h)" for a
  proof -
    from that(1) r(2) have "a \<noteq> l"
      by auto
    moreover from that(2) have "Some a \<noteq> lines h"
      using chain_lines [OF assms(2)] by (auto split: if_splits)
    ultimately show ?thesis
      using r(6) by simp
  qed
  moreover from r(2,5) have
    "set (chain hp' h') \<subseteq> set (chain hp h) \<union> {l} \<and> {l} \<inter> fmdom' (cells hp) = {}"
    by simp
  ultimately show ?thesis
    using r(3,4) by blast
qed

lemma handlehist_ok:
  assumes "heap_ok hp" and "hist_ok hp h" and "handlehist th h t hp = Inr (h', hp', fb)"
  shows "heap_ok hp' \<and> hist_ok hp' h' \<and>
         (\<exists>N. set (chain hp' h') \<subseteq> set (chain hp h) \<union> N \<and> N \<inter> fmdom' (cells hp) = {}) \<and>
         (\<forall>a\<in>fmdom' (cells hp) - set (chain hp h). fmlookup (cells hp') a = fmlookup (cells hp) a)"
proof (cases "th_request th")
  case TH_HIST_KEEP
  with assms(3) have "hist_keep th h hp = Inr (h', hp', fb)"
    by (simp add: handlehist_def)
  with assms(1,2) show ?thesis
    by (rule hist_keep_ok)
next
  case TH_HIST_PREV
  with assms(3) hist_prev_returns [OF assms(2)] have
    "hp' = hp \<and> hist_ok hp h' \<and> chain hp h' = chain hp h"
    by (auto simp: handlehist_def chain_current)
  with assms(1) show ?thesis
    by auto
next
  case TH_HIST_NEXT
  with assms(3) hist_next_returns [OF assms(2)] have
    "hp' = hp \<and> hist_ok hp h' \<and> chain hp h' = chain hp h"
    by (auto simp: handlehist_def chain_current)
  with assms(1) show ?thesis
    by auto
next
  case (TH_OTHER c)
  with assms show ?thesis
    by (auto simp: handlehist_def)
qed

lemma handlehist_store_ok:
  assumes "store_ok hists hp" and "i < length hists"
    and "handlehist th (hists ! i) t hp = Inr (h', hp', fb)"
  shows "store_ok (hists[i := h']) hp'"
proof -
  from assms(1,2) have "heap_ok hp" "hist_ok hp (hists ! i)"
    by (simp_all add: store_ok_def list_all_length)
  from handlehist_ok [OF this assms(3)] obtain N where
    "heap_ok hp'" "hist_ok hp' h'" "set (chain hp' h') \<subseteq> set (chain hp (hists ! i)) \<union> N"
    "N \<inter> fmdom' (cells hp) = {}"
    "\<forall>a\<in>fmdom' (cells hp) - set (chain hp (hists ! i)).
       fmlookup (cells hp') a = fmlookup (cells hp) a"
    by blast
  with assms(1,2) show ?thesis
    by (rule store_ok_update)
qed

lemma lookup_less: "lookup hists p d = Some i \<Longrightarrow> i < length hists"
  by (induction hists arbitrary: i) (auto split: if_splits)

lemma findhist_store_ok:
  assumes "store_ok hists hp" and "findhist hists p d hp = Inr (i, hists', hp')"
  shows "store_ok hists' hp' \<and> i < length hists'"
proof (cases "lookup hists p d")
  case (Some j)
  with assms show ?thesis
    by (simp add: findhist_def lookup_less)
next
  case None
  with assms(2) obtain a where r: "avail hp = a # avail hp'" "cells hp' = cells hp"
    "hists' = \<lparr>pid = p, dev = d, lines = None, current = None\<rparr> # hists" "i = 0"
    by (auto simp: findhist_def malloc_def split: list.splits)
  from assms(1) r(1,2) have "heap_ok hp'"
    by (auto simp: store_ok_def heap_ok_def)
  moreover have "hist_ok hp' \<lparr>pid = p, dev = d, lines = None, current = None\<rparr>"
    by (simp add: hist_ok_fresh)
  moreover have "chain hp' \<lparr>pid = p, dev = d, lines = None, current = None\<rparr> = []"
    by (simp add: chain_def)
  moreover from r(2) have "hist_ok hp' = hist_ok hp"
    by (intro ext hist_ok_cells)
  moreover from r(2) have "chain hp' = chain hp"
    by (intro ext chain_cells)
  ultimately show ?thesis
    using assms(1) r(3,4) by (simp add: store_ok_def)
qed

lemma reachable_store_ok: "reachable hists hp \<Longrightarrow> store_ok hists hp"
proof (induction rule: reachable.induct)
  case (start hp)
  then show ?case
    by (simp add: store_ok_def heap_ok_def)
next
  case (find hists hp p d i hists' hp')
  then show ?case
    by (simp add: findhist_store_ok)
next
  case (handle hists hp i th t h' hp' fb)
  then show ?case
    by (simp add: handlehist_store_ok)
next
  case (sweep hists hp kill hists' hp')
  then show ?case
    by (simp add: cleanup_ok)
qed

text \<open>
  C9. In every state that the daemon reaches from its start (no history, no line) by
  \<^verbatim>\<open>findhist\<close>, by \<^verbatim>\<open>handlehist\<close> with any request (Record, StepOlder, StepNewer or one
  of unknown kind) on any of its histories, and by \<^verbatim>\<open>cleanup\<close> with any outcomes of
  \<^verbatim>\<open>kill\<close>, in any order, the \<open>current\<close> of every history, when set, points to a node
  of the chain of that history, and the node is allocated. So each of these
  operations keeps the property.
\<close>

theorem current_in_chain:
  assumes "reachable hists hp" and "h \<in> set hists" and "current h = Some c"
  shows "c \<in> set (chain hp h) \<and> c \<in> fmdom' (cells hp)"
proof -
  from assms(1) have "store_ok hists hp"
    by (rule reachable_store_ok)
  with assms(2) have "hist_ok hp h"
    by (simp add: store_ok_def list_all_iff)
  with assms(3) have "c \<in> set (chain hp h)"
    by (simp add: hist_ok_def)
  then show ?thesis
    using chain_dom [of hp h] by auto
qed

lemma reachable_run:
  assumes "reachable hists hp" and "i < length hists"
    and "run ths (hists ! i) t hp = Inr (h', hp', fbs)"
  shows "reachable (hists[i := h']) hp'"
  using assms
proof (induction ths arbitrary: hists hp fbs)
  case Nil
  then show ?case by auto
next
  case (Cons th ths)
  from Cons.prems(3) obtain h1 hp1 fb fbs' where
    h: "handlehist th (hists ! i) t hp = Inr (h1, hp1, fb)"
    and r: "run ths h1 t hp1 = Inr (h', hp', fbs')"
    by (auto split: sum.splits)
  from Cons.prems(1,2) h have "reachable (hists[i := h1]) hp1"
    by (rule reachable.handle)
  moreover from Cons.prems(2) have "i < length (hists[i := h1])" "hists[i := h1] ! i = h1"
    by simp_all
  ultimately have "reachable (hists[i := h1, i := h']) hp'"
    using r by (intro Cons.IH) simp_all
  then show ?case
    by simp
qed

lemma findhist_less: "findhist hists p d hp = Inr (i, hists', hp') \<Longrightarrow> i < length hists'"
  by (auto simp: findhist_def lookup_less split: option.splits)

lemma serve_reachable:
  assumes "reachable hists hp"
    and "serve kill ttys starttime now th (hists, hp) = Inr ((hists', hp'), fb)"
  shows "reachable hists' hp'"
proof (cases "now \<le> starttime + 2 \<or> findtty ttys (th_tty th) = None")
  case True
  with assms show ?thesis
    by (auto simp: serve_def split: if_splits)
next
  case False
  with assms(2) obtain t i hists1 hp1 h1 hp2 where
    f: "findhist hists (th_pid th) (th_tty th) hp = Inr (i, hists1, hp1)"
    and h: "handlehist th (hists1 ! i) t hp1 = Inr (h1, hp2, fb)"
    and c: "cleanup kill (hists1[i := h1]) hp2 = Inr (hists', hp')"
    by (auto simp: serve_def split: option.splits sum.splits)
  from assms(1) f have "reachable hists1 hp1"
    by (rule reachable.find)
  then have "reachable (hists1[i := h1]) hp2"
    using findhist_less [OF f] h by (rule reachable.handle)
  then show ?thesis
    using c by (rule reachable.sweep)
qed

lemma example_reachable: "reachable [hist2 (Some 2)] heap2"
proof -
  have "reachable [] heap9"
    by (rule reachable.start) (simp_all add: heap9_def)
  moreover have "findhist [] 100 5 heap9 = Inr (0, [hist0], heap0)"
    by (simp add: findhist_def malloc_def example_defs)
  ultimately have r0: "reachable [hist0] heap0"
    by (rule reachable.find)
  have "run [req TH_HIST_KEEP ''ls'', req TH_HIST_KEEP ''pwd'', req TH_HIST_PREV []]
      ([hist0] ! 0) tty5 heap0 = Inr (hist2 (Some 2), heap2, [Silent, Silent, Input ''pwd''])"
    by (auto simp: example_defs handlehist_def hist_keep_def hist_prev_def totty_def malloc_def
        th_len_def strncpy_def Let_def intro!: fmap_ext)
  with reachable_run [OF r0, of 0] show ?thesis
    by fastforce
qed

theorem current_in_chain_witness:
  "2 \<in> set (chain heap2 (hist2 (Some 2))) \<and> 2 \<in> fmdom' (cells heap2)"
  using current_in_chain [OF example_reachable, of "hist2 (Some 2)" 2]
  by (simp add: hist2_def)

subsection \<open>Requests of unknown kind in the main loop\<close>

lemma cleanup_alive:
  "\<forall>h\<in>set hists. kill (pid h) \<noteq> Some ESRCH \<Longrightarrow> cleanup kill hists hp = Inr (hists, hp)"
  by (induction hists) simp_all

text \<open>
  C2, amended. A request of unknown kind that arrives in the first two seconds is
  discarded without a word, and one for an unknown terminal is reported as such; in
  both cases the store is left as it was. Any other request of unknown kind is
  reported as an unknown request, and \<^verbatim>\<open>handlehist\<close> changes no history on it: the
  request is served as \<^verbatim>\<open>findhist\<close> followed by \<^verbatim>\<open>cleanup\<close>. So when the process and
  device of the request have a history already and \<^verbatim>\<open>kill\<close> reports no process of
  the store as gone, the store is left as it was; when they have none (and there is
  memory for one), a new empty history, with no line and \<open>current\<close> at the bottom,
  is put in front of the store, which is otherwise left as it was when no process is
  reported gone.
\<close>

theorem unknown_request_served:
  assumes "th_request th = TH_OTHER c"
  shows "(now \<le> starttime + 2 \<longrightarrow>
            serve kill ttys starttime now th (hists, hp) = Inr ((hists, hp), Silent)) \<and>
         (starttime + 2 < now \<and> findtty ttys (th_tty th) = None \<longrightarrow>
            serve kill ttys starttime now th (hists, hp) =
              Inr ((hists, hp), UnknownTty (th_tty th))) \<and>
         (starttime + 2 < now \<and> findtty ttys (th_tty th) = Some t \<longrightarrow>
            serve kill ttys starttime now th (hists, hp) =
              (case findhist hists (th_pid th) (th_tty th) hp of
                 Inl e \<Rightarrow> Inl e
               | Inr (i, hists1, hp1) \<Rightarrow>
                   (case cleanup kill hists1 hp1 of
                      Inl e \<Rightarrow> Inl e
                    | Inr s' \<Rightarrow> Inr (s', UnknownRequest c (name t))))) \<and>
         (starttime + 2 < now \<and> findtty ttys (th_tty th) = Some t \<and>
          lookup hists (th_pid th) (th_tty th) \<noteq> None \<and>
          (\<forall>h\<in>set hists. kill (pid h) \<noteq> Some ESRCH) \<longrightarrow>
            serve kill ttys starttime now th (hists, hp) =
              Inr ((hists, hp), UnknownRequest c (name t))) \<and>
         (starttime + 2 < now \<and> findtty ttys (th_tty th) = Some t \<and>
          lookup hists (th_pid th) (th_tty th) = None \<and> avail hp \<noteq> [] \<and>
          kill (th_pid th) \<noteq> Some ESRCH \<and> (\<forall>h\<in>set hists. kill (pid h) \<noteq> Some ESRCH) \<longrightarrow>
            serve kill ttys starttime now th (hists, hp) =
              Inr ((\<lparr>pid = th_pid th, dev = th_tty th, lines = None, current = None\<rparr> # hists,
                    hp\<lparr>avail := tl (avail hp)\<rparr>),
                   UnknownRequest c (name t)))"
proof -
  have gen: "serve kill ttys starttime now th (hists, hp) =
      (case findhist hists (th_pid th) (th_tty th) hp of
         Inl e \<Rightarrow> Inl e
       | Inr (i, hists1, hp1) \<Rightarrow>
           (case cleanup kill hists1 hp1 of
              Inl e \<Rightarrow> Inl e
            | Inr s' \<Rightarrow> Inr (s', UnknownRequest c (name t))))"
    if "starttime + 2 < now" "findtty ttys (th_tty th) = Some t"
    using that assms by (auto simp: serve_def handlehist_def split: sum.splits)
  have old: "serve kill ttys starttime now th (hists, hp) =
      Inr ((hists, hp), UnknownRequest c (name t))"
    if "starttime + 2 < now" "findtty ttys (th_tty th) = Some t"
      "lookup hists (th_pid th) (th_tty th) \<noteq> None"
      "\<forall>h\<in>set hists. kill (pid h) \<noteq> Some ESRCH"
  proof -
    from that(4) have "cleanup kill hists hp = Inr (hists, hp)"
      by (rule cleanup_alive)
    with that(3) show ?thesis
      by (auto simp: gen [OF that(1,2)] findhist_def)
  qed
  have new: "serve kill ttys starttime now th (hists, hp) =
      Inr ((\<lparr>pid = th_pid th, dev = th_tty th, lines = None, current = None\<rparr> # hists,
            hp\<lparr>avail := tl (avail hp)\<rparr>),
           UnknownRequest c (name t))"
    if "starttime + 2 < now" "findtty ttys (th_tty th) = Some t"
      "lookup hists (th_pid th) (th_tty th) = None" "avail hp \<noteq> []"
      "kill (th_pid th) \<noteq> Some ESRCH" "\<forall>h\<in>set hists. kill (pid h) \<noteq> Some ESRCH"
  proof -
    let ?h = "\<lparr>pid = th_pid th, dev = th_tty th, lines = None, current = None\<rparr>"
    from that(5,6) have "cleanup kill (?h # hists) (hp\<lparr>avail := tl (avail hp)\<rparr>) =
        Inr (?h # hists, hp\<lparr>avail := tl (avail hp)\<rparr>)"
      by (intro cleanup_alive) simp
    with that(3,4) show ?thesis
      by (cases "avail hp") (auto simp: gen [OF that(1,2)] findhist_def malloc_def)
  qed
  have "now \<le> starttime + 2 \<longrightarrow>
      serve kill ttys starttime now th (hists, hp) = Inr ((hists, hp), Silent)"
    by (simp add: serve_def)
  moreover have "starttime + 2 < now \<and> findtty ttys (th_tty th) = None \<longrightarrow>
      serve kill ttys starttime now th (hists, hp) = Inr ((hists, hp), UnknownTty (th_tty th))"
    by (simp add: serve_def)
  ultimately show ?thesis
    using gen old new by blast
qed

theorem unknown_request_served_witness:
  "serve all_alive [tty5] 0 1 (req (TH_OTHER 7) []) ([], heap9) = Inr (([], heap9), Silent) \<and>
   serve all_alive [] 0 10 (req (TH_OTHER 7) []) ([], heap9) = Inr (([], heap9), UnknownTty 5) \<and>
   serve all_alive [tty5] 0 10 (req (TH_OTHER 7) []) ([hist2 (Some 0)], heap2) =
     Inr (([hist2 (Some 0)], heap2), UnknownRequest 7 ''ttyp5'') \<and>
   serve all_alive [tty5] 0 10 (req (TH_OTHER 7) []) ([], heap9) =
     Inr (([hist0], heap0), UnknownRequest 7 ''ttyp5'')"
proof -
  have r: "th_request (req (TH_OTHER 7) []) = TH_OTHER 7"
    by (simp add: req_def)
  have "serve all_alive [tty5] 0 1 (req (TH_OTHER 7) []) ([], heap9) = Inr (([], heap9), Silent)"
    using unknown_request_served [OF r, where now = 1 and starttime = 0 and kill = all_alive
          and ttys = "[tty5]" and hists = "[]" and hp = heap9, THEN conjunct1]
    by simp
  moreover have "serve all_alive [] 0 10 (req (TH_OTHER 7) []) ([], heap9) =
      Inr (([], heap9), UnknownTty 5)"
    using unknown_request_served [OF r, where now = 10 and starttime = 0 and kill = all_alive
          and ttys = "[]" and hists = "[]" and hp = heap9, THEN conjunct2, THEN conjunct1]
    by (simp add: findtty_def req_def)
  moreover have "serve all_alive [tty5] 0 10 (req (TH_OTHER 7) []) ([hist2 (Some 0)], heap2) =
      Inr (([hist2 (Some 0)], heap2), UnknownRequest 7 ''ttyp5'')"
    using unknown_request_served [OF r, where now = 10 and starttime = 0 and kill = all_alive
          and ttys = "[tty5]" and t = tty5 and hists = "[hist2 (Some 0)]" and hp = heap2,
        THEN conjunct2, THEN conjunct2, THEN conjunct2, THEN conjunct1]
    by (simp add: req_def hist2_def all_alive_def tty5_def findtty_def)
  moreover have "serve all_alive [tty5] 0 10 (req (TH_OTHER 7) []) ([], heap9) =
      Inr (([hist0], heap0), UnknownRequest 7 ''ttyp5'')"
    using unknown_request_served [OF r, where now = 10 and starttime = 0 and kill = all_alive
          and ttys = "[tty5]" and t = tty5 and hists = "[]" and hp = heap9,
        THEN conjunct2, THEN conjunct2, THEN conjunct2, THEN conjunct2]
    by (simp add: req_def all_alive_def tty5_def hist0_def heap0_def heap9_def findtty_def)
  ultimately show ?thesis
    by simp
qed

text \<open>
  C2 as it is stated fails for a process and device that have no history yet: the
  request of unknown kind is reported, but \<^verbatim>\<open>findhist\<close> has created a history for
  them before \<^verbatim>\<open>handlehist\<close> looks at the kind of the request, and the store that
  was empty holds one history afterwards.
\<close>

theorem unknown_request_creates:
  "serve all_alive [tty5] 0 10 (req (TH_OTHER 7) []) ([], heap9) =
     Inr (([hist0], heap0), UnknownRequest 7 ''ttyp5'') \<and> [hist0] \<noteq> []"
  by (simp add: serve_def findtty_def findhist_def malloc_def handlehist_def example_defs)

end
